theory Spec2Isabelle
  imports Complex_Main
begin

section \<open>Weighted outcomes\<close>

text \<open>
  \<open>simulate_bb84\<close> draws from Python's \<open>random\<close> module and from a simulator backend, so
  one call has many possible results. A computation is modelled by the finite list of its
  outcomes, each with the probability of the path that leads to it; sequencing two
  computations multiplies the weights along each path.
\<close>

type_synonym 'a dist = "('a \<times> real) list"

definition return_dist :: "'a \<Rightarrow> 'a dist" where
  "return_dist x = [(x, 1)]"

definition bind_dist :: "'a dist \<Rightarrow> ('a \<Rightarrow> 'b dist) \<Rightarrow> 'b dist" where
  "bind_dist d f = concat (map (\<lambda>(x, p). map (\<lambda>(y, q). (y, p * q)) (f x)) d)"

definition expect :: "'a dist \<Rightarrow> ('a \<Rightarrow> real) \<Rightarrow> real" where
  "expect d g = sum_list (map (\<lambda>(x, p). p * g x) d)"

definition prob :: "'a dist \<Rightarrow> ('a \<Rightarrow> bool) \<Rightarrow> real" where
  "prob d P = expect d (\<lambda>x. if P x then 1 else 0)"

definition mass :: "'a dist \<Rightarrow> real" where
  "mass d = sum_list (map snd d)"

text \<open>
  A \<open>for i in range(n)\<close> loop whose body draws random values: the body takes the index and
  the variables the loop updates, and the loop threads them through the indices in order.
\<close>

fun for_dist :: "nat list \<Rightarrow> (nat \<Rightarrow> 's \<Rightarrow> 's dist) \<Rightarrow> 's \<Rightarrow> 's dist" where
  "for_dist [] body s = return_dist s"
| "for_dist (i # js) body s = bind_dist (body i s) (for_dist js body)"

section \<open>The random module\<close>

text \<open>\<open>random.randint(0, 1)\<close>: 0 or 1, each with probability one half.\<close>

definition randint01 :: "int dist" where
  "randint01 = [(0, 1 / 2), (1, 1 / 2)]"

text \<open>
  \<open>[random.randint(0, 1) for _ in range(n)]\<close>: one draw per element, the leftmost first.
\<close>

fun randint_list :: "nat \<Rightarrow> int list dist" where
  "randint_list 0 = return_dist []"
| "randint_list (Suc k) =
     bind_dist randint01 (\<lambda>b. bind_dist (randint_list k) (\<lambda>bs. return_dist (b # bs)))"

section \<open>One-qubit circuits and the simulator backend\<close>

text \<open>
  A \<open>QuantumCircuit(1, 1)\<close> is the list of the instructions appended to it so far:
  \<open>qc.x(0)\<close>, \<open>qc.h(0)\<close> and \<open>qc.measure(0, 0)\<close>. Every circuit object of the notebook is
  held by exactly one slot of the list \<open>circuits\<close>, so a circuit is a value.
\<close>

datatype gate = X | H | Measure

type_synonym circuit = "gate list"

text \<open>
  The backend is the external simulator (\<open>AerSimulator\<close>), which is not part of the
  notebook. It is modelled by the state-vector semantics of the three instructions. The
  qubit starts in the state \<open>|0>\<close> and the classical bit at 0; \<open>x\<close> swaps the two
  amplitudes; \<open>h\<close> is the Hadamard matrix, which maps the amplitudes \<open>(u, v)\<close> to
  \<open>((u + v) / sqrt 2, (u - v) / sqrt 2)\<close>; \<open>measure\<close> writes 0 with probability the
  square of the first amplitude and 1 with probability the square of the second, and
  leaves the qubit in the matching basis state.

  From \<open>|0>\<close> these instructions only reach amplitudes that are integers over a power of
  \<open>sqrt 2\<close>. The state with amplitudes \<open>a / sqrt 2 ^ k\<close> and \<open>b / sqrt 2 ^ k\<close> is kept
  as the triple \<open>(a, b, k)\<close>, so that the probabilities \<open>a\<^sup>2 / 2 ^ k\<close> and
  \<open>b\<^sup>2 / 2 ^ k\<close> are exact.
\<close>

type_synonym qubit = "int \<times> int \<times> nat"

fun apply_gate :: "gate \<Rightarrow> qubit \<times> int \<Rightarrow> (qubit \<times> int) dist" where
  "apply_gate X ((a, b, k), c) = return_dist ((b, a, k), c)"
| "apply_gate H ((a, b, k), c) = return_dist ((a + b, a - b, Suc k), c)"
| "apply_gate Measure ((a, b, k), c) =
     [(((sgn a, 0, 0), 0), real_of_int (a * a) / 2 ^ k),
      (((0, sgn b, 0), 1), real_of_int (b * b) / 2 ^ k)]"

fun run_gates :: "circuit \<Rightarrow> qubit \<times> int \<Rightarrow> (qubit \<times> int) dist" where
  "run_gates [] s = return_dist s"
| "run_gates (g # gs) s = bind_dist (apply_gate g s) (run_gates gs)"

text \<open>
  \<open>backend.run(qc, shots=1)\<close>, then \<open>int(list(result.keys())[0])\<close>: with one shot the
  counts have a single key, the value of the classical bit at the end of the run.
\<close>

definition backend_run :: "circuit \<Rightarrow> int dist" where
  "backend_run qc = bind_dist (run_gates qc ((1, 0, 0), 0)) (\<lambda>(q, c). return_dist c)"

section \<open>The steps of simulate_bb84\<close>

text \<open>Step 2, the body of the loop: the circuit that encodes one bit in one basis.\<close>

definition prepare :: "int \<Rightarrow> int \<Rightarrow> circuit" where
  "prepare bit_value basis =
     (let qc = [];
          qc = (if bit_value = 1 then qc @ [X] else qc);
          qc = (if basis = 1 then qc @ [H] else qc)
      in qc)"

definition prepare_all :: "nat \<Rightarrow> int list \<Rightarrow> int list \<Rightarrow> circuit list" where
  "prepare_all n alice_bits alice_bases =
     map (\<lambda>i. prepare (alice_bits ! i) (alice_bases ! i)) [0..<n]"

text \<open>
  Steps 3 and 4 both end a circuit the same way: \<open>h(0)\<close> when the basis is 1, then
  \<open>measure(0, 0)\<close>, written into slot \<open>i\<close> of \<open>circuits\<close>.
\<close>

definition measure_in :: "circuit \<Rightarrow> int \<Rightarrow> circuit" where
  "measure_in qc basis = (if basis = 1 then qc @ [H] else qc) @ [Measure]"

text \<open>
  Step 3, the body of Eve's loop. The measurement is appended to the circuit in slot
  \<open>i\<close>, but that circuit is never handed to the backend; \<open>intercepted_bit\<close> is a new draw
  of \<open>random.randint(0, 1)\<close>, and the slot is overwritten with the circuit built from it.
\<close>

definition eve_step :: "int list \<Rightarrow> nat \<Rightarrow> circuit list \<Rightarrow> circuit list dist" where
  "eve_step eve_bases i circuits =
     (let circuits = circuits[i := measure_in (circuits ! i) (eve_bases ! i)]
      in bind_dist randint01 (\<lambda>intercepted_bit.
           let new_qc = [];
               new_qc = (if intercepted_bit = 1 then new_qc @ [X] else new_qc);
               new_qc = (if eve_bases ! i = 1 then new_qc @ [H] else new_qc)
           in return_dist (circuits[i := new_qc])))"


definition intercept :: "nat \<Rightarrow> circuit list \<Rightarrow> (int list \<times> circuit list) dist" where
  "intercept n circuits =
     bind_dist (randint_list n) (\<lambda>eve_bases.
     bind_dist (for_dist [0..<n] (eve_step eve_bases) circuits) (\<lambda>circuits.
     return_dist (eve_bases, circuits)))"

text \<open>Step 4, the body of Bob's loop: the variables updated are \<open>circuits\<close> and \<open>bob_results\<close>.\<close>

definition bob_step ::
  "int list \<Rightarrow> nat \<Rightarrow> circuit list \<times> int list \<Rightarrow> (circuit list \<times> int list) dist" where
  "bob_step bob_bases i = (\<lambda>(circuits, bob_results).
     let circuits = circuits[i := measure_in (circuits ! i) (bob_bases ! i)]
     in bind_dist (backend_run (circuits ! i)) (\<lambda>measured_bit.
          return_dist (circuits, bob_results @ [measured_bit])))"

definition bob_measure :: "nat \<Rightarrow> circuit list \<Rightarrow> int list \<Rightarrow> int list dist" where
  "bob_measure n circuits bob_bases =
     bind_dist (for_dist [0..<n] (bob_step bob_bases) (circuits, []))
       (\<lambda>(circuits, bob_results). return_dist bob_results)"

text \<open>
  Steps 1 to 4 together: everything random in a trial. \<open>eve_bases\<close> exists only when
  \<open>eavesdrop\<close> is true.
\<close>

record transmission =
  alice_bits :: "int list"
  alice_bases :: "int list"
  eve_bases :: "int list option"
  bob_bases :: "int list"
  bob_results :: "int list"

definition transmit :: "int \<Rightarrow> bool \<Rightarrow> transmission dist" where
  "transmit n_bits eavesdrop =
     (let n = nat n_bits in
      bind_dist (randint_list n) (\<lambda>a_bits.
      bind_dist (randint_list n) (\<lambda>a_bases.
      bind_dist
        (if eavesdrop
         then bind_dist (intercept n (prepare_all n a_bits a_bases))
                (\<lambda>(e_bases, circuits). return_dist (Some e_bases, circuits))
         else return_dist (None, prepare_all n a_bits a_bases)) (\<lambda>(e_bases, circuits).
      bind_dist (randint_list n) (\<lambda>b_bases.
      bind_dist (bob_measure n circuits b_bases) (\<lambda>b_results.
      return_dist \<lparr>alice_bits = a_bits, alice_bases = a_bases, eve_bases = e_bases,
                   bob_bases = b_bases, bob_results = b_results\<rparr>))))))"

text \<open>Step 5: key sifting, a loop that appends to both keys where the bases match.\<close>

definition sift_step ::
  "transmission \<Rightarrow> nat \<Rightarrow> int list \<times> int list \<Rightarrow> int list \<times> int list" where
  "sift_step t i = (\<lambda>(sifted_key_alice, sifted_key_bob).
     if alice_bases t ! i = bob_bases t ! i
     then (sifted_key_alice @ [alice_bits t ! i], sifted_key_bob @ [bob_results t ! i])
     else (sifted_key_alice, sifted_key_bob))"

definition sift :: "nat \<Rightarrow> transmission \<Rightarrow> int list \<times> int list" where
  "sift n t = fold (sift_step t) [0..<n] ([], [])"

text \<open>
  Step 6. Python's \<open>/\<close> raises \<open>ZeroDivisionError\<close> on a zero divisor; the quotient of the
  two integers is taken as the exact real number (the float is its rounding).
\<close>

datatype py_error = ZeroDivisionError

definition py_truediv :: "int \<Rightarrow> int \<Rightarrow> py_error + real" where
  "py_truediv a b = (if b = 0 then Inl ZeroDivisionError else Inr (real_of_int a / real_of_int b))"

definition count_errors :: "int list \<Rightarrow> int list \<Rightarrow> int" where
  "count_errors sifted_key_alice sifted_key_bob =
     sum_list (map (\<lambda>(a, b). if a \<noteq> b then 1 else 0) (zip sifted_key_alice sifted_key_bob))"

definition qber_of :: "int list \<Rightarrow> int list \<Rightarrow> py_error + real" where
  "qber_of sifted_key_alice sifted_key_bob =
     (if length sifted_key_alice = 0 then Inr 0
      else py_truediv (count_errors sifted_key_alice sifted_key_bob)
             (int (length sifted_key_alice)))"

text \<open>Steps 5 and 6 on the outcome of steps 1 to 4, and the whole function.\<close>

definition finish ::
  "int \<Rightarrow> transmission \<Rightarrow> py_error + (int list \<times> int list \<times> real)" where
  "finish n_bits t =
     (case sift (nat n_bits) t of (sifted_key_alice, sifted_key_bob) \<Rightarrow>
        (case qber_of sifted_key_alice sifted_key_bob of
           Inl e \<Rightarrow> Inl e
         | Inr qber \<Rightarrow> Inr (sifted_key_alice, sifted_key_bob, qber)))"

definition simulate_bb84 ::
  "int \<Rightarrow> bool \<Rightarrow> (py_error + (int list \<times> int list \<times> real)) dist" where
  "simulate_bb84 n_bits eavesdrop =
     bind_dist (transmit n_bits eavesdrop) (\<lambda>t. return_dist (finish n_bits t))"

text \<open>
  A property holds surely when every outcome of non-zero weight has it.
\<close>

definition surely :: "'a dist \<Rightarrow> ('a \<Rightarrow> bool) \<Rightarrow> bool" where
  "surely d P = list_all (\<lambda>(x, p). p = 0 \<or> P x) d"

text \<open>Every outcome, whatever its weight, has the property.\<close>

definition always :: "'a dist \<Rightarrow> ('a \<Rightarrow> bool) \<Rightarrow> bool" where
  "always d P = list_all (\<lambda>(x, p). P x) d"

section \<open>One position of a trial\<close>

text \<open>
  The record of position \<open>i\<close> of a trial: Alice's bit and basis, Eve's basis when she is
  there, Bob's basis and Bob's result.
\<close>

definition position :: "transmission \<Rightarrow> nat \<Rightarrow> int \<times> int \<times> int option \<times> int \<times> int" where
  "position t i =
     (alice_bits t ! i, alice_bases t ! i, map_option (\<lambda>eb. eb ! i) (eve_bases t),
      bob_bases t ! i, bob_results t ! i)"

text \<open>
  The steps of \<open>simulate_bb84\<close> for a single qubit, with the loop bodies of steps 2, 3
  and 4 in the order of the notebook. Each position of a trial is shown below to be
  distributed like this.
\<close>

definition one_qubit :: "bool \<Rightarrow> (int \<times> int \<times> int option \<times> int \<times> int) dist" where
  "one_qubit eavesdrop =
     bind_dist randint01 (\<lambda>a_bit.
     bind_dist randint01 (\<lambda>a_basis.
     bind_dist
       (if eavesdrop
        then bind_dist randint01 (\<lambda>e_basis.
             bind_dist randint01 (\<lambda>intercepted_bit.
             return_dist (Some e_basis, prepare intercepted_bit e_basis)))
        else return_dist (None, prepare a_bit a_basis)) (\<lambda>(e_basis, qc).
     bind_dist randint01 (\<lambda>b_basis.
     bind_dist (backend_run (measure_in qc b_basis)) (\<lambda>measured_bit.
     return_dist (a_bit, a_basis, e_basis, b_basis, measured_bit))))))"

section \<open>Expectations of weighted outcomes\<close>

text \<open>
  The expectation of a sequenced computation is the iterated expectation; the two
  computations form a monad on outcome lists.
\<close>

lemma expect_Nil: "expect [] g = 0" by (simp add: expect_def)

lemma expect_Cons: "expect ((x, p) # d) g = p * g x + expect d g" by (simp add: expect_def)

lemma expect_append: "expect (d @ e) g = expect d g + expect e g" by (simp add: expect_def)

lemma expect_return: "expect (return_dist x) g = g x" by (simp add: expect_def return_dist_def)

lemma expect_scale: "expect (map (\<lambda>(y, q). (y, p * q)) d) g = p * expect d g"
  by (induction d) (auto simp: expect_def algebra_simps)

lemma bind_Nil: "bind_dist [] f = []" by (simp add: bind_dist_def)

lemma bind_Cons: "bind_dist ((x, p) # d) f = map (\<lambda>(y, q). (y, p * q)) (f x) @ bind_dist d f"
  by (simp add: bind_dist_def)

lemma expect_bind: "expect (bind_dist d f) g = expect d (\<lambda>x. expect (f x) g)"
  by (induction d) (auto simp: bind_Nil bind_Cons expect_Nil expect_Cons expect_append expect_scale)

lemma expect_cong: "(\<And>x p. (x, p) \<in> set d \<Longrightarrow> p \<noteq> 0 \<Longrightarrow> g x = h x) \<Longrightarrow> expect d g = expect d h"
proof (induction d)
  case Nil
  show ?case by (simp add: expect_Nil)
next
  case (Cons xp d)
  obtain x p where xp: "xp = (x, p)" by (cases xp)
  have 1: "p * g x = p * h x" using Cons.prems [of x p] xp by (cases "p = 0") simp_all
  have 2: "expect d g = expect d h" by (rule Cons.IH) (rule Cons.prems, simp_all)
  show ?case by (simp add: xp expect_Cons 1 2)
qed

lemma expect_const: "expect d (\<lambda>x. c) = mass d * c"
  by (induction d) (auto simp: expect_Nil expect_Cons mass_def algebra_simps)

lemma expect_add: "expect d (\<lambda>x. g x + h x) = expect d g + expect d h"
  by (induction d) (auto simp: expect_Nil expect_Cons algebra_simps)

lemma expect_cmult: "expect d (\<lambda>x. c * g x) = c * expect d g"
  by (induction d) (auto simp: expect_Nil expect_Cons algebra_simps)

lemma mass_expect: "mass d = expect d (\<lambda>x. 1)"
  by (simp add: expect_const)

lemma mass_return: "mass (return_dist x) = 1" by (simp add: mass_def return_dist_def)

lemma mass_bind: "(\<And>x p. (x, p) \<in> set d \<Longrightarrow> p \<noteq> 0 \<Longrightarrow> mass (f x) = 1) \<Longrightarrow> mass (bind_dist d f) = mass d"
proof -
  assume a: "\<And>x p. (x, p) \<in> set d \<Longrightarrow> p \<noteq> 0 \<Longrightarrow> mass (f x) = 1"
  have "mass (bind_dist d f) = expect d (\<lambda>x. mass (f x))"
    by (simp add: mass_expect expect_bind)
  also have "\<dots> = expect d (\<lambda>x. 1)" using a by (rule expect_cong)
  finally show ?thesis by (simp add: mass_expect)
qed

lemma expect_randint01: "expect randint01 g = (g 0 + g 1) / 2"
  by (simp add: randint01_def expect_def)

lemma mass_randint01: "mass randint01 = 1" by (simp add: randint01_def mass_def)

lemma mass_randint_list: "mass (randint_list n) = 1"
  by (induction n) (simp_all add: mass_return mass_bind mass_randint01)

lemma bind_assoc: "bind_dist (bind_dist d f) g = bind_dist d (\<lambda>x. bind_dist (f x) g)"
  by (induction d) (auto simp: bind_dist_def map_concat comp_def case_prod_unfold algebra_simps)

lemma bind_return_left: "bind_dist (return_dist x) f = f x"
  by (simp add: bind_dist_def return_dist_def)

lemma bind_return_right: "bind_dist d return_dist = d"
  by (induction d) (auto simp: bind_dist_def return_dist_def)

lemma for_dist_append: "for_dist (is @ js) body s = bind_dist (for_dist is body s) (for_dist js body)"
proof (induction "is" arbitrary: s)
  case Nil
  show ?case by (simp add: bind_return_left)
next
  case (Cons i "is")
  have "for_dist (is @ js) body = (\<lambda>x. bind_dist (for_dist is body x) (for_dist js body))"
    using Cons.IH by blast
  then show ?case by (simp add: bind_assoc)
qed

section \<open>Running the circuits of the notebook\<close>

text \<open>
  The backend run gate by gate, and the two measurements of a prepared circuit: in the basis
  of preparation the bit comes back, in the other basis both results have weight one half
  (\<open>h\<close> applied twice is the identity, applied once it splits the amplitudes evenly).
\<close>

lemma expect_backend_run:
  "expect (backend_run qc) g = expect (run_gates qc ((1, 0, 0), 0)) (\<lambda>(q, c). g c)"
  by (simp add: backend_run_def expect_bind case_prod_unfold expect_return)

lemma expect_run_Nil: "expect (run_gates [] s) g = g s"
  by (simp add: expect_return)

lemma expect_run_X:
  "expect (run_gates (X # gs) ((a, b, k), c)) g = expect (run_gates gs ((b, a, k), c)) g"
  by (simp add: bind_return_left)

lemma expect_run_H:
  "expect (run_gates (H # gs) ((a, b, k), c)) g
   = expect (run_gates gs ((a + b, a - b, Suc k), c)) g"
  by (simp add: bind_return_left)

lemma expect_run_Measure:
  "expect (run_gates (Measure # gs) ((a, b, k), c)) g
   = real_of_int (a * a) / 2 ^ k * expect (run_gates gs ((sgn a, 0, 0), 0)) g
   + real_of_int (b * b) / 2 ^ k * expect (run_gates gs ((0, sgn b, 0), 1)) g"
  by (simp add: expect_bind expect_Cons expect_Nil)

lemmas run_simps = expect_backend_run expect_run_Nil expect_run_X expect_run_H expect_run_Measure

lemma measure_same:
  "expect (backend_run (measure_in (prepare b bs) bs)) g = g (if b = 1 then 1 else 0)"
  by (simp add: measure_in_def prepare_def run_simps del: run_gates.simps)

lemma measure_other:
  "bs \<noteq> bs' \<Longrightarrow> bs = 1 \<or> bs' = 1 \<Longrightarrow>
   expect (backend_run (measure_in (prepare b bs) bs')) g = (g 0 + g 1) / 2"
  by (auto simp add: measure_in_def prepare_def run_simps simp del: run_gates.simps)

section \<open>Properties that hold surely\<close>

text \<open>
  Invariants of the random loops: a property that each iteration establishes surely holds
  surely at the end of the loop.
\<close>

lemma surely_iff: "surely d P \<longleftrightarrow> (\<forall>(x, p) \<in> set d. p \<noteq> 0 \<longrightarrow> P x)"
  unfolding surely_def list_all_iff by auto

lemma always_iff: "always d P \<longleftrightarrow> (\<forall>(x, p) \<in> set d. P x)"
  unfolding always_def list_all_iff by auto

lemma surelyD: "surely d P \<Longrightarrow> (x, p) \<in> set d \<Longrightarrow> p \<noteq> 0 \<Longrightarrow> P x"
  by (auto simp: surely_iff)

lemma surely_return: "P x \<Longrightarrow> surely (return_dist x) P"
  by (simp add: surely_iff return_dist_def)

lemma surely_bind:
  assumes "surely d P" and "\<And>x. P x \<Longrightarrow> surely (f x) Q"
  shows "surely (bind_dist d f) Q"
  using assms by (fastforce simp: surely_iff bind_dist_def)

lemma surely_mono: "surely d P \<Longrightarrow> (\<And>x. P x \<Longrightarrow> Q x) \<Longrightarrow> surely d Q"
  by (auto simp: surely_iff)

lemma surely_True: "surely d (\<lambda>x. True)"
  by (simp add: surely_iff)

lemma expect_surely_cong:
  "surely d P \<Longrightarrow> (\<And>x. P x \<Longrightarrow> g x = h x) \<Longrightarrow> expect d g = expect d h"
  by (rule expect_cong) (auto dest: surelyD)

lemma prob_surely: "surely d P \<Longrightarrow> prob d P = mass d"
  unfolding prob_def mass_expect by (rule expect_surely_cong) simp_all

lemma surely_randint01: "surely randint01 (\<lambda>b. b = 0 \<or> b = 1)"
  by (simp add: surely_iff randint01_def)

lemma surely_randint_list: "surely (randint_list n) (\<lambda>xs. length xs = n \<and> set xs \<subseteq> {0, 1})"
proof (induction n)
  case 0
  show ?case by (simp add: surely_return)
next
  case (Suc n)
  show ?case
    unfolding randint_list.simps
    by (rule surely_bind [OF surely_randint01], rule surely_bind [OF Suc], rule surely_return) auto
qed

lemma for_dist_single: "for_dist [i] body = body i"
proof
  fix s
  have "for_dist [] body = return_dist" by (rule ext) simp
  then show "for_dist [i] body s = body i s" by (simp add: bind_return_right)
qed

lemma surely_for_upt:
  assumes "I m s" and "m \<le> n"
    and "\<And>i s. m \<le> i \<Longrightarrow> i < n \<Longrightarrow> I i s \<Longrightarrow> surely (body i s) (I (Suc i))"
  shows "surely (for_dist [m..<n] body s) (I n)"
  using assms(2,3)
proof (induction n)
  case 0
  then show ?case using assms(1) by (simp add: surely_return)
next
  case (Suc n)
  show ?case
  proof (cases "m = Suc n")
    case True
    then show ?thesis using assms(1) by (simp add: surely_return)
  next
    case False
    then have le: "m \<le> n" using Suc.prems(1) by simp
    have IH: "surely (for_dist [m..<n] body s) (I n)"
      using le Suc.prems(2) by (intro Suc.IH) simp_all
    have "for_dist [m..<Suc n] body s = bind_dist (for_dist [m..<n] body s) (for_dist [n] body)"
      using le by (simp add: for_dist_append [symmetric])
    moreover have "for_dist [n] body = body n"
      by (rule for_dist_single)
    ultimately show ?thesis
      using IH Suc.prems(2) [of n] le by (auto intro: surely_bind)
  qed
qed

lemma mass_for_dist: "(\<And>j s. mass (body j s) = 1) \<Longrightarrow> mass (for_dist js body s) = 1"
  by (induction js arbitrary: s) (simp_all add: mass_return mass_bind)

section \<open>Total weight, sifting and error counting\<close>

text \<open>
  A run of the backend from a normalised state has total weight 1, whatever the circuit.
  The sift loop returns the bits at the matching indices, in index order.
\<close>

lemma mass_run_gates: "a * a + b * b = 2 ^ k \<Longrightarrow> mass (run_gates gs ((a, b, k), c)) = 1"
proof (induction gs arbitrary: a b k c)
  case Nil
  show ?case by (simp add: mass_return)
next
  case (Cons g gs)
  show ?case
  proof (cases g)
    case X
    have "b * b + a * a = 2 ^ k" using Cons.prems by simp
    then show ?thesis using X Cons.IH [of b a k c] by (simp add: bind_return_left)
  next
    case H
    have "(a + b) * (a + b) + (a - b) * (a - b) = 2 ^ Suc k"
      using Cons.prems by (simp add: algebra_simps)
    then show ?thesis using H Cons.IH [of "a + b" "a - b" "Suc k" c] by (simp add: bind_return_left)
  next
    case Measure
    have 0: "real_of_int (a * a) / 2 ^ k * mass (run_gates gs ((sgn a, 0, 0), 0))
        = real_of_int (a * a) / 2 ^ k"
    proof (cases "a = 0")
      case False
      then have "sgn a * sgn a + 0 * 0 = (2::int) ^ 0" by (simp add: sgn_if)
      then show ?thesis using Cons.IH [of "sgn a" 0 0 0] by simp
    qed simp
    have 1: "real_of_int (b * b) / 2 ^ k * mass (run_gates gs ((0, sgn b, 0), 1))
        = real_of_int (b * b) / 2 ^ k"
    proof (cases "b = 0")
      case False
      then have "0 * 0 + sgn b * sgn b = (2::int) ^ 0" by (simp add: sgn_if)
      then show ?thesis using Cons.IH [of 0 "sgn b" 0 1] by simp
    qed simp
    have "mass (run_gates (Measure # gs) ((a, b, k), c)) =
        real_of_int (a * a) / 2 ^ k * mass (run_gates gs ((sgn a, 0, 0), 0))
        + real_of_int (b * b) / 2 ^ k * mass (run_gates gs ((0, sgn b, 0), 1))"
      unfolding mass_expect by (rule expect_run_Measure)
    also have "\<dots> = real_of_int (a * a + b * b) / 2 ^ k"
      by (simp only: 0 1) (simp add: add_divide_distrib)
    also have "\<dots> = 1"
      by (simp add: Cons.prems)
    finally show ?thesis by (simp add: Measure)
  qed
qed

lemma mass_backend_run: "mass (backend_run qc) = 1"
proof -
  have "mass (backend_run qc) = mass (run_gates qc ((1, 0, 0), 0))"
    unfolding mass_expect expect_backend_run by (simp add: case_prod_unfold)
  then show ?thesis by (simp add: mass_run_gates)
qed

lemma surely_measure_same:
  "surely (backend_run (measure_in (prepare b bs) bs)) (\<lambda>r. r = (if b = 1 then 1 else 0))"
  by (simp add: surely_iff backend_run_def measure_in_def prepare_def bind_dist_def return_dist_def)

lemma fold_sift_step:
  "fold (sift_step t) js (sa, sb) =
     (sa @ map (\<lambda>i. alice_bits t ! i) (filter (\<lambda>i. alice_bases t ! i = bob_bases t ! i) js),
      sb @ map (\<lambda>i. bob_results t ! i) (filter (\<lambda>i. alice_bases t ! i = bob_bases t ! i) js))"
  by (induction js arbitrary: sa sb) (simp_all add: sift_step_def)

lemma sift_eq:
  "sift n t =
     (map (\<lambda>i. alice_bits t ! i) (filter (\<lambda>i. alice_bases t ! i = bob_bases t ! i) [0..<n]),
      map (\<lambda>i. bob_results t ! i) (filter (\<lambda>i. alice_bases t ! i = bob_bases t ! i) [0..<n]))"
  by (simp add: sift_def fold_sift_step)

lemma count_errors_same: "count_errors xs xs = 0"
  unfolding count_errors_def by (induction xs) simp_all

lemma qber_of_same: "qber_of xs xs = Inr 0"
  by (simp add: qber_of_def py_truediv_def count_errors_same)

section \<open>The trial without Eve\<close>

text \<open>
  Every stage of a trial has total weight 1. Without Eve, Bob's loop surely returns
  Alice's bit wherever the two bases are equal.
\<close>

lemma mass_bob_step: "mass (bob_step bb i s) = 1"
  by (cases s) (simp add: bob_step_def Let_def mass_bind mass_backend_run mass_return)

lemma mass_bob_measure: "mass (bob_measure n cs bb) = 1"
  unfolding bob_measure_def
  by (subst mass_bind) (auto simp: mass_return mass_for_dist mass_bob_step)

lemma mass_eve_step: "mass (eve_step eb i cs) = 1"
  by (simp add: eve_step_def Let_def mass_bind mass_randint01 mass_return)

lemma mass_intercept: "mass (intercept n cs) = 1"
  unfolding intercept_def
  by (simp add: mass_bind mass_return mass_for_dist mass_eve_step mass_randint_list)

lemma mass_transmit: "mass (transmit n e) = 1"
  unfolding transmit_def Let_def
  by (simp add: mass_bind mass_return mass_randint_list mass_bob_measure mass_intercept
      case_prod_unfold)

lemma mass_simulate_bb84: "mass (simulate_bb84 n e) = 1"
  by (simp add: simulate_bb84_def mass_bind mass_return mass_transmit)

lemma bob_measure_matched:
  assumes len: "length ab = n" "length abas = n"
  shows "surely (bob_measure n (prepare_all n ab abas) bb)
           (\<lambda>rs. length rs = n \<and>
              (\<forall>j<n. abas ! j = bb ! j \<longrightarrow> rs ! j = (if ab ! j = 1 then 1 else 0)))"
proof -
  define I where "I = (\<lambda>i (cs :: circuit list, rs :: int list).
     length cs = n \<and> length rs = i \<and>
     (\<forall>j<i. abas ! j = bb ! j \<longrightarrow> rs ! j = (if ab ! j = 1 then 1 else 0)) \<and>
     (\<forall>j. i \<le> j \<and> j < n \<longrightarrow> cs ! j = prepare (ab ! j) (abas ! j)))"
  have start: "I 0 (prepare_all n ab abas, [])"
    by (simp add: I_def prepare_all_def)
  have step: "surely (bob_step bb i s) (I (Suc i))" if "i < n" "I i s" for i s
  proof -
    obtain cs rs where s: "s = (cs, rs)" by (cases s)
    have inv: "length cs = n" "length rs = i"
      "\<forall>j<i. abas ! j = bb ! j \<longrightarrow> rs ! j = (if ab ! j = 1 then 1 else 0)"
      "\<forall>j. i \<le> j \<and> j < n \<longrightarrow> cs ! j = prepare (ab ! j) (abas ! j)"
      using that(2) by (simp_all add: I_def s)
    have csi: "cs ! i = prepare (ab ! i) (abas ! i)" using inv(4) that(1) by simp
    have run: "surely (backend_run (measure_in (prepare (ab ! i) (abas ! i)) (bb ! i)))
        (\<lambda>r. abas ! i = bb ! i \<longrightarrow> r = (if ab ! i = 1 then 1 else 0))"
    proof (cases "abas ! i = bb ! i")
      case True
      then show ?thesis using surely_measure_same [of "ab ! i" "bb ! i"] by simp
    next
      case False
      then show ?thesis by (simp add: surely_iff)
    qed
    show ?thesis
      unfolding s bob_step_def Let_def prod.case
      using that(1) inv(1)
      apply (simp add: csi)
      apply (rule surely_bind [OF run])
      apply (rule surely_return)
      using inv by (auto simp: I_def nth_append less_Suc_eq)
  qed
  have "surely (for_dist [0..<n] (bob_step bb) (prepare_all n ab abas, [])) (I n)"
    by (rule surely_for_upt [where I = I and m = 0, OF start]) (simp_all add: step)
  then show ?thesis
    unfolding bob_measure_def
    by (rule surely_bind) (auto simp: I_def intro: surely_return)
qed

lemma transmit_no_eve_agree:
  "surely (transmit n False)
     (\<lambda>t. \<forall>j<nat n. alice_bases t ! j = bob_bases t ! j \<longrightarrow> bob_results t ! j = alice_bits t ! j)"
  unfolding transmit_def Let_def
  apply (rule surely_bind [OF surely_randint_list])
  apply (rule surely_bind [OF surely_randint_list])
  apply (simp add: bind_return_left)
  apply (rule surely_bind [OF surely_True])
  apply (rule surely_bind)
   apply (rule bob_measure_matched)
    apply simp
   apply simp
  apply (rule surely_return)
  apply (auto simp: subset_iff)
  by (metis nth_mem)

lemma finish_agree:
  assumes "\<forall>j<nat n. alice_bases t ! j = bob_bases t ! j \<longrightarrow> bob_results t ! j = alice_bits t ! j"
  shows "finish n t =
     Inr (map (\<lambda>i. alice_bits t ! i) (filter (\<lambda>i. alice_bases t ! i = bob_bases t ! i) [0..<nat n]),
          map (\<lambda>i. alice_bits t ! i) (filter (\<lambda>i. alice_bases t ! i = bob_bases t ! i) [0..<nat n]), 0)"
proof -
  have eq: "map (\<lambda>i. bob_results t ! i) (filter (\<lambda>i. alice_bases t ! i = bob_bases t ! i) [0..<nat n])
      = map (\<lambda>i. alice_bits t ! i) (filter (\<lambda>i. alice_bases t ! i = bob_bases t ! i) [0..<nat n])"
    using assms by (intro map_cong) auto
  show ?thesis
    unfolding finish_def sift_eq prod.case eq qber_of_same by simp
qed

section \<open>Counts of zero or less, and the value of the QBER\<close>

text \<open>
  For \<open>n_bits \<le> 0\<close> every \<open>range(n_bits)\<close> is empty: no random draw is made, no circuit
  is built, and the sifted keys are empty.
\<close>

lemma transmit_nonpos:
  assumes "n \<le> 0"
  shows "transmit n e = return_dist \<lparr>alice_bits = [], alice_bases = [],
      eve_bases = (if e then Some [] else None), bob_bases = [], bob_results = []\<rparr>"
proof -
  have n: "nat n = 0" using assms by simp
  have bob: "bob_measure 0 [] bs = return_dist []" for bs
    by (simp add: bob_measure_def bind_return_left)
  have eve: "intercept 0 [] = return_dist ([], [])"
    by (simp add: intercept_def bind_return_left)
  show ?thesis
    by (simp add: transmit_def n bind_return_left prepare_all_def bob eve)
qed

lemma simulate_nonpos:
  assumes "n \<le> 0"
  shows "simulate_bb84 n e = return_dist (Inr ([], [], 0))"
proof -
  have n: "nat n = 0" using assms by simp
  show ?thesis
    by (simp add: simulate_bb84_def transmit_nonpos [OF assms] bind_return_left finish_def
        sift_def qber_of_def n)
qed

lemma count_errors_filter:
  "count_errors xs ys = int (length (filter (\<lambda>(a, b). a \<noteq> b) (zip xs ys)))"
  unfolding count_errors_def by (induction xs ys rule: list_induct2') simp_all

lemma qber_of_value:
  "qber_of xs ys = Inr (if length xs = 0 then 0
      else real (length (filter (\<lambda>(a, b). a \<noteq> b) (zip xs ys))) / real (length xs))"
  by (simp add: qber_of_def py_truediv_def count_errors_filter)

section \<open>One position of a loop\<close>

text \<open>
  Iteration \<open>j\<close> of Eve's loop and of Bob's loop touches slot \<open>j\<close> only, so what a loop
  leaves at position \<open>i\<close> is what iteration \<open>i\<close> alone leaves there.
\<close>

lemma expect_surely_const: "surely d (\<lambda>x. g x = c) \<Longrightarrow> mass d = 1 \<Longrightarrow> expect d g = c"
proof -
  assume a: "surely d (\<lambda>x. g x = c)" and m: "mass d = 1"
  have "expect d g = expect d (\<lambda>x. c)" using a by (rule expect_surely_cong)
  then show ?thesis by (simp add: expect_const m)
qed

lemma expect_randint_list_nth:
  "i < n \<Longrightarrow> expect (randint_list n) (\<lambda>xs. g (xs ! i)) = expect randint01 g"
proof (induction n arbitrary: i g)
  case 0
  then show ?case by simp
next
  case (Suc n)
  show ?case
  proof (cases i)
    case 0
    then show ?thesis
      by (simp add: expect_bind expect_return expect_const mass_randint_list)
  next
    case (Suc j)
    then have "j < n" using Suc.prems by simp
    then have "expect (randint_list n) (\<lambda>xs. g (xs ! j)) = expect randint01 g"
      by (rule Suc.IH)
    then show ?thesis
      by (simp add: Suc expect_bind expect_return expect_const mass_randint01)
  qed
qed

lemma for_dist_split:
  assumes "i < n"
  shows "for_dist [0..<n] body s =
     bind_dist (for_dist [0..<i] body s) (\<lambda>s1. bind_dist (body i s1) (for_dist [Suc i..<n] body))"
proof -
  have "[0..<n] = [0..<i] @ i # [Suc i..<n]"
    using assms by (metis less_imp_le_nat upt_add_eq_append upt_conv_Cons le0 le_add_diff_inverse plus_nat.add_0)
  moreover have "for_dist (i # [Suc i..<n]) body =
      (\<lambda>s1. bind_dist (body i s1) (for_dist [Suc i..<n] body))"
    by (rule ext) simp
  ultimately show ?thesis
    by (simp add: for_dist_append)
qed

lemma expect_for_dist_at:
  assumes i: "i < n" and mass: "\<And>j s. mass (body j s) = 1"
    and start: "I 0 s"
    and pre: "\<And>j s. j < i \<Longrightarrow> I j s \<Longrightarrow> surely (body j s) (I (Suc j))"
    and at: "\<And>s1. I i s1 \<Longrightarrow> expect (body i s1) G = c"
    and mid: "\<And>s1. I i s1 \<Longrightarrow> surely (body i s1) J"
    and post: "\<And>j s2 s3. i < j \<Longrightarrow> j < n \<Longrightarrow> J s3 \<Longrightarrow> surely (body j s3) (\<lambda>s4. J s4 \<and> G s4 = G s3)"
  shows "expect (for_dist [0..<n] body s) G = c"
proof -
  have after: "expect (for_dist [Suc i..<n] body s2) G = G s2" if "J s2" for s2
  proof -
    have "surely (for_dist [Suc i..<n] body s2) (\<lambda>s4. J s4 \<and> G s4 = G s2)"
      using i that
      by (intro surely_for_upt [where I = "\<lambda>k s4. J s4 \<and> G s4 = G s2"])
         (auto intro: surely_mono [OF post])
    then have "surely (for_dist [Suc i..<n] body s2) (\<lambda>s4. G s4 = G s2)"
      by (rule surely_mono) simp
    then show ?thesis by (rule expect_surely_const) (simp add: mass_for_dist mass)
  qed
  have before: "surely (for_dist [0..<i] body s) (I i)"
    using start pre by (intro surely_for_upt [where I = I]) simp_all
  have "expect (for_dist [0..<n] body s) G =
      expect (for_dist [0..<i] body s) (\<lambda>s1. expect (body i s1)
         (\<lambda>s2. expect (for_dist [Suc i..<n] body s2) G))"
    by (simp add: for_dist_split [OF i] expect_bind)
  also have "\<dots> = expect (for_dist [0..<i] body s) (\<lambda>s1. c)"
  proof (rule expect_surely_cong [OF before])
    fix s1 assume s1: "I i s1"
    have "expect (body i s1) (\<lambda>s2. expect (for_dist [Suc i..<n] body s2) G)
        = expect (body i s1) G"
      by (rule expect_surely_cong [OF mid [OF s1]]) (simp add: after)
    then show "expect (body i s1) (\<lambda>s2. expect (for_dist [Suc i..<n] body s2) G) = c"
      by (simp add: at [OF s1])
  qed
  finally show ?thesis by (simp add: expect_const mass_for_dist mass)
qed

lemma eve_step_eq:
  "eve_step eb i cs =
     bind_dist randint01 (\<lambda>ib. return_dist (cs[i := prepare ib (eb ! i)]))"
  unfolding eve_step_def by (simp add: Let_def prepare_def)

lemma expect_eve_loop_at:
  assumes i: "i < n" and len: "length cs = n"
    and F: "\<And>cs'. length cs' = n \<Longrightarrow> F cs' = K (cs' ! i)"
  shows "expect (for_dist [0..<n] (eve_step eb) cs) F
       = expect randint01 (\<lambda>ib. K (prepare ib (eb ! i)))"
proof (rule expect_for_dist_at [where I = "\<lambda>k cs'. length cs' = n" and J = "\<lambda>cs'. length cs' = n", OF i])
  show "mass (eve_step eb j s) = 1" for j s by (rule mass_eve_step)
  show "length cs = n" by (rule len)
  show "surely (eve_step eb j s) (\<lambda>cs'. length cs' = n)" if "length s = n" for j s
    using that by (simp add: eve_step_eq surely_iff bind_dist_def return_dist_def randint01_def)
  show "expect (eve_step eb i s1) F = expect randint01 (\<lambda>ib. K (prepare ib (eb ! i)))"
    if "length s1 = n" for s1
    using that i by (simp add: eve_step_eq expect_bind expect_return F)
  show "surely (eve_step eb i s1) (\<lambda>cs'. length cs' = n)" if "length s1 = n" for s1
    using that by (simp add: eve_step_eq surely_iff bind_dist_def return_dist_def randint01_def)
  show "surely (eve_step eb j s3) (\<lambda>s4. length s4 = n \<and> F s4 = F s3)"
    if "i < j" "j < n" "length s3 = n" for j s3
    using that by (simp add: eve_step_eq surely_iff bind_dist_def return_dist_def randint01_def F)
qed

lemma surely_eve_loop_length:
  "surely (for_dist [0..<n] (eve_step eb) cs) (\<lambda>cs'. length cs' = length cs)"
  by (rule surely_for_upt [where I = "\<lambda>k cs'. length cs' = length cs"])
     (simp_all add: eve_step_eq surely_iff bind_dist_def return_dist_def randint01_def)

lemma expect_intercept_at:
  assumes i: "i < n" and len: "length cs = n"
    and F: "\<And>eb cs'. length cs' = n \<Longrightarrow> F (eb, cs') = K (eb ! i) (cs' ! i)"
  shows "expect (intercept n cs) F
       = expect randint01 (\<lambda>e. expect randint01 (\<lambda>ib. K e (prepare ib e)))"
proof -
  have "expect (intercept n cs) F
      = expect (randint_list n) (\<lambda>eb. expect (for_dist [0..<n] (eve_step eb) cs) (\<lambda>cs'. F (eb, cs')))"
    by (simp add: intercept_def expect_bind expect_return)
  also have "\<dots> = expect (randint_list n) (\<lambda>eb. expect randint01 (\<lambda>ib. K (eb ! i) (prepare ib (eb ! i))))"
    using expect_eve_loop_at [OF i len, where K = "K (eb ! i)" and F = "\<lambda>cs'. F (eb, cs')" for eb]
    by (simp add: F)
  also have "\<dots> = expect randint01 (\<lambda>e. expect randint01 (\<lambda>ib. K e (prepare ib e)))"
    by (rule expect_randint_list_nth [OF i])
  finally show ?thesis .
qed

lemma surely_intercept_length:
  "surely (intercept n cs) (\<lambda>(eb, cs'). length cs' = length cs)"
  unfolding intercept_def
  by (rule surely_bind [OF surely_True], rule surely_bind [OF surely_eve_loop_length])
     (simp add: surely_return)

lemma expect_bob_measure_at:
  assumes i: "i < n" and len: "length cs = n"
  shows "expect (bob_measure n cs bb) (\<lambda>rs. g (rs ! i))
       = expect (backend_run (measure_in (cs ! i) (bb ! i))) g"
proof -
  have "expect (for_dist [0..<n] (bob_step bb) (cs, [])) (\<lambda>(cs', rs). g (rs ! i))
       = expect (backend_run (measure_in (cs ! i) (bb ! i))) g"
  proof (rule expect_for_dist_at [where
        I = "\<lambda>k (cs', rs). length cs' = n \<and> length rs = k \<and> (k \<le> i \<longrightarrow> cs' ! i = cs ! i)"
        and J = "\<lambda>(cs', rs). i < length rs", OF i])
    show "mass (bob_step bb j s) = 1" for j s by (rule mass_bob_step)
    show "case (cs, []) of (cs', rs) \<Rightarrow> length cs' = n \<and> length rs = 0 \<and> (0 \<le> i \<longrightarrow> cs' ! i = cs ! i)"
      by (simp add: len)
    show "surely (bob_step bb j s)
        (\<lambda>(cs', rs). length cs' = n \<and> length rs = Suc j \<and> (Suc j \<le> i \<longrightarrow> cs' ! i = cs ! i))"
      if "j < i" "case s of (cs', rs) \<Rightarrow> length cs' = n \<and> length rs = j \<and> (j \<le> i \<longrightarrow> cs' ! i = cs ! i)"
      for j s
      using that
      by (cases s) (auto simp: bob_step_def Let_def intro!: surely_bind [OF surely_True] surely_return)
    show "expect (bob_step bb i s1) (\<lambda>(cs', rs). g (rs ! i))
        = expect (backend_run (measure_in (cs ! i) (bb ! i))) g"
      if "case s1 of (cs', rs) \<Rightarrow> length cs' = n \<and> length rs = i \<and> (i \<le> i \<longrightarrow> cs' ! i = cs ! i)"
      for s1
      using that i
      by (cases s1) (auto simp: bob_step_def Let_def expect_bind expect_return)
    show "surely (bob_step bb i s1) (\<lambda>(cs', rs). i < length rs)"
      if "case s1 of (cs', rs) \<Rightarrow> length cs' = n \<and> length rs = i \<and> (i \<le> i \<longrightarrow> cs' ! i = cs ! i)"
      for s1
      using that
      by (cases s1) (auto simp: bob_step_def Let_def intro!: surely_bind [OF surely_True] surely_return)
    show "surely (bob_step bb j s3)
        (\<lambda>s4. (case s4 of (cs', rs) \<Rightarrow> i < length rs) \<and>
              (case s4 of (cs', rs) \<Rightarrow> g (rs ! i)) = (case s3 of (cs', rs) \<Rightarrow> g (rs ! i)))"
      if "i < j" "j < n" "case s3 of (cs', rs) \<Rightarrow> i < length rs" for j s3
      using that
      by (cases s3) (auto simp: bob_step_def Let_def nth_append intro!: surely_bind [OF surely_True] surely_return)
  qed
  then show ?thesis
    by (simp add: bob_measure_def expect_bind expect_return case_prod_unfold)
qed

section \<open>One position of a trial is a one-qubit trial\<close>

text \<open>
  The record of position \<open>i\<close> of a trial of any length is distributed as the record of
  \<open>one_qubit\<close>, whose expectations are finite sums.
\<close>

lemma expect_transmit_at:
  assumes i: "i < nat n"
  shows "expect (transmit n e) (\<lambda>t. g (position t i)) = expect (one_qubit e) g"
proof -
  let ?n = "nat n"
  have bob: "expect (randint_list ?n) (\<lambda>bb. expect (bob_measure ?n cs bb)
        (\<lambda>rs. g (a, ba, eo, bb ! i, rs ! i)))
      = expect randint01 (\<lambda>b. expect (backend_run (measure_in (cs ! i) b)) (\<lambda>r. g (a, ba, eo, b, r)))"
    if "length cs = ?n" for cs a ba eo
  proof -
    have "expect (randint_list ?n) (\<lambda>bb. expect (bob_measure ?n cs bb)
        (\<lambda>rs. g (a, ba, eo, bb ! i, rs ! i)))
      = expect (randint_list ?n) (\<lambda>bb. expect (backend_run (measure_in (cs ! i) (bb ! i)))
        (\<lambda>r. g (a, ba, eo, bb ! i, r)))"
      using expect_bob_measure_at [OF i that, where g = "\<lambda>r. g (a, ba, eo, bb ! i, r)" for bb]
      by simp
    also have "\<dots> = expect randint01 (\<lambda>b. expect (backend_run (measure_in (cs ! i) b)) (\<lambda>r. g (a, ba, eo, b, r)))"
      by (rule expect_randint_list_nth [OF i])
    finally show ?thesis .
  qed
  show ?thesis
  proof (cases e)
    case False
    have "expect (transmit n e) (\<lambda>t. g (position t i))
      = expect (randint_list ?n) (\<lambda>ab. expect (randint_list ?n) (\<lambda>abas.
          expect (randint_list ?n) (\<lambda>bb. expect (bob_measure ?n (prepare_all ?n ab abas) bb)
            (\<lambda>rs. g (ab ! i, abas ! i, None, bb ! i, rs ! i)))))"
      by (simp add: False transmit_def Let_def expect_bind expect_return position_def bind_return_left)
    also have "\<dots> = expect (randint_list ?n) (\<lambda>ab. expect (randint_list ?n) (\<lambda>abas.
          expect randint01 (\<lambda>b. expect (backend_run (measure_in (prepare (ab ! i) (abas ! i)) b))
            (\<lambda>r. g (ab ! i, abas ! i, None, b, r)))))"
      using i by (simp add: bob prepare_all_def)
    also have "\<dots> = expect (randint_list ?n) (\<lambda>ab. expect randint01 (\<lambda>ba.
          expect randint01 (\<lambda>b. expect (backend_run (measure_in (prepare (ab ! i) ba) b))
            (\<lambda>r. g (ab ! i, ba, None, b, r)))))"
      using expect_randint_list_nth [OF i, where g = "\<lambda>ba.
          expect randint01 (\<lambda>b. expect (backend_run (measure_in (prepare (ab ! i) ba) b))
            (\<lambda>r. g (ab ! i, ba, None, b, r)))" for ab] by simp
    also have "\<dots> = expect randint01 (\<lambda>a. expect randint01 (\<lambda>ba.
          expect randint01 (\<lambda>b. expect (backend_run (measure_in (prepare a ba) b))
            (\<lambda>r. g (a, ba, None, b, r)))))"
      by (rule expect_randint_list_nth [OF i])
    also have "\<dots> = expect (one_qubit e) g"
      by (simp add: False one_qubit_def expect_bind expect_return bind_return_left)
    finally show ?thesis .
  next
    case True
    have "expect (transmit n e) (\<lambda>t. g (position t i))
      = expect (randint_list ?n) (\<lambda>ab. expect (randint_list ?n) (\<lambda>abas.
          expect (intercept ?n (prepare_all ?n ab abas)) (\<lambda>(eb, cs).
          expect (randint_list ?n) (\<lambda>bb. expect (bob_measure ?n cs bb)
            (\<lambda>rs. g (ab ! i, abas ! i, Some (eb ! i), bb ! i, rs ! i))))))"
      by (simp add: True transmit_def Let_def expect_bind expect_return position_def
          case_prod_unfold)
    also have "\<dots> = expect (randint_list ?n) (\<lambda>ab. expect (randint_list ?n) (\<lambda>abas.
          expect randint01 (\<lambda>ev. expect randint01 (\<lambda>ib.
          expect randint01 (\<lambda>b. expect (backend_run (measure_in (prepare ib ev) b))
            (\<lambda>r. g (ab ! i, abas ! i, Some ev, b, r)))))))"
    proof -
      have "expect (intercept ?n (prepare_all ?n ab abas)) (\<lambda>(eb, cs).
          expect (randint_list ?n) (\<lambda>bb. expect (bob_measure ?n cs bb)
            (\<lambda>rs. g (ab ! i, abas ! i, Some (eb ! i), bb ! i, rs ! i))))
        = expect randint01 (\<lambda>ev. expect randint01 (\<lambda>ib.
          expect randint01 (\<lambda>b. expect (backend_run (measure_in (prepare ib ev) b))
            (\<lambda>r. g (ab ! i, abas ! i, Some ev, b, r)))))" for ab abas
        by (rule expect_intercept_at [OF i]) (simp_all add: prepare_all_def bob)
      then show ?thesis by simp
    qed
    also have "\<dots> = expect (randint_list ?n) (\<lambda>ab. expect randint01 (\<lambda>ba.
          expect randint01 (\<lambda>ev. expect randint01 (\<lambda>ib.
          expect randint01 (\<lambda>b. expect (backend_run (measure_in (prepare ib ev) b))
            (\<lambda>r. g (ab ! i, ba, Some ev, b, r)))))))"
      using expect_randint_list_nth [OF i, where g = "\<lambda>ba.
          expect randint01 (\<lambda>ev. expect randint01 (\<lambda>ib.
          expect randint01 (\<lambda>b. expect (backend_run (measure_in (prepare ib ev) b))
            (\<lambda>r. g (ab ! i, ba, Some ev, b, r)))))" for ab] by simp
    also have "\<dots> = expect randint01 (\<lambda>a. expect randint01 (\<lambda>ba.
          expect randint01 (\<lambda>ev. expect randint01 (\<lambda>ib.
          expect randint01 (\<lambda>b. expect (backend_run (measure_in (prepare ib ev) b))
            (\<lambda>r. g (a, ba, Some ev, b, r)))))))"
      by (rule expect_randint_list_nth [OF i])
    also have "\<dots> = expect (one_qubit e) g"
      by (simp add: True one_qubit_def expect_bind expect_return)
    finally show ?thesis .
  qed
qed


lemma expect_measure_prepare:
  "expect (backend_run (measure_in (prepare 0 0) 0)) g = g 0"
  "expect (backend_run (measure_in (prepare 1 0) 0)) g = g 1"
  "expect (backend_run (measure_in (prepare 0 1) 1)) g = g 0"
  "expect (backend_run (measure_in (prepare 1 1) 1)) g = g 1"
  "expect (backend_run (measure_in (prepare 0 0) 1)) g = (g 0 + g 1) / 2"
  "expect (backend_run (measure_in (prepare 1 0) 1)) g = (g 0 + g 1) / 2"
  "expect (backend_run (measure_in (prepare 0 1) 0)) g = (g 0 + g 1) / 2"
  "expect (backend_run (measure_in (prepare 1 1) 0)) g = (g 0 + g 1) / 2"
  by (simp_all add: measure_same measure_other)

lemmas one_qubit_simps = one_qubit_def expect_bind expect_return expect_randint01
  expect_measure_prepare bind_return_left

lemma prob_transmit_at:
  "i < nat n \<Longrightarrow> prob (transmit n e) (\<lambda>t. P (position t i)) = prob (one_qubit e) P"
  unfolding prob_def by (rule expect_transmit_at)

section \<open>Expected key length and error count\<close>

text \<open>
  The key length and the error count are sums over the positions, so their expectations
  are sums of the probabilities at each position.
\<close>

lemma expect_sum_list:
  "expect d (\<lambda>x. \<Sum>i\<leftarrow>js. f i x) = (\<Sum>i\<leftarrow>js. expect d (f i))"
proof (induction js)
  case Nil
  show ?case by (simp add: expect_const)
next
  case (Cons j js)
  show ?case by (simp add: expect_add Cons)
qed

lemma length_filter_sum:
  "real (length (filter P js)) = (\<Sum>i\<leftarrow>js. if P i then 1 else 0)"
  by (induction js) simp_all

lemma count_errors_map:
  "real_of_int (count_errors (map f js) (map h js)) = (\<Sum>i\<leftarrow>js. if f i \<noteq> h i then 1 else 0)"
  unfolding count_errors_def by (induction js) simp_all

lemma sum_list_filter_if:
  "(\<Sum>i\<leftarrow>filter P js. if Q i then 1 else (0::real)) = (\<Sum>i\<leftarrow>js. if P i \<and> Q i then 1 else 0)"
  by (induction js) simp_all

lemma finish_value:
  "finish n t =
     Inr (map (\<lambda>i. alice_bits t ! i) (filter (\<lambda>i. alice_bases t ! i = bob_bases t ! i) [0..<nat n]),
          map (\<lambda>i. bob_results t ! i) (filter (\<lambda>i. alice_bases t ! i = bob_bases t ! i) [0..<nat n]),
          if filter (\<lambda>i. alice_bases t ! i = bob_bases t ! i) [0..<nat n] = [] then 0
          else real (length (filter (\<lambda>(a, b). a \<noteq> b)
                 (zip (map (\<lambda>i. alice_bits t ! i) (filter (\<lambda>i. alice_bases t ! i = bob_bases t ! i) [0..<nat n]))
                      (map (\<lambda>i. bob_results t ! i) (filter (\<lambda>i. alice_bases t ! i = bob_bases t ! i) [0..<nat n])))))
               / real (length (filter (\<lambda>i. alice_bases t ! i = bob_bases t ! i) [0..<nat n])))"
  unfolding finish_def sift_eq prod.case qber_of_value by simp

lemma sum_list_const_upt: "(\<Sum>i\<leftarrow>[0..<n]. f i) = real n * c" if "\<And>i. i < n \<Longrightarrow> f i = c"
  using that by (induction n) (simp_all add: algebra_simps)

lemma expected_sifted_length:
  "expect (simulate_bb84 n e)
     (\<lambda>r. case r of Inl err \<Rightarrow> 0 | Inr (sa, sb, q) \<Rightarrow> real (length sa)) = real (nat n) / 2"
proof -
  have "expect (simulate_bb84 n e)
     (\<lambda>r. case r of Inl err \<Rightarrow> 0 | Inr (sa, sb, q) \<Rightarrow> real (length sa))
     = expect (transmit n e) (\<lambda>t. \<Sum>i\<leftarrow>[0..<nat n]. if alice_bases t ! i = bob_bases t ! i then 1 else 0)"
    by (simp add: simulate_bb84_def expect_bind expect_return finish_value length_filter_sum)
  also have "\<dots> = (\<Sum>i\<leftarrow>[0..<nat n]. prob (transmit n e) (\<lambda>t. alice_bases t ! i = bob_bases t ! i))"
    by (simp add: expect_sum_list prob_def)
  also have "\<dots> = real (nat n) * (1 / 2)"
  proof (rule sum_list_const_upt)
    fix i assume i: "i < nat n"
    show "prob (transmit n e) (\<lambda>t. alice_bases t ! i = bob_bases t ! i) = 1 / 2"
      using prob_transmit_at [OF i, where P = "\<lambda>(a, ba, ev, b, r). ba = b" and e = e]
      by (cases e) (simp_all add: position_def prob_def one_qubit_simps)
  qed
  finally show ?thesis by simp
qed

lemma expected_error_count_eve:
  "expect (simulate_bb84 n True)
     (\<lambda>r. case r of Inl err \<Rightarrow> 0 | Inr (sa, sb, q) \<Rightarrow> real_of_int (count_errors sa sb)) = real (nat n) / 4"
proof -
  have "expect (simulate_bb84 n True)
     (\<lambda>r. case r of Inl err \<Rightarrow> 0 | Inr (sa, sb, q) \<Rightarrow> real_of_int (count_errors sa sb))
     = expect (transmit n True) (\<lambda>t. \<Sum>i\<leftarrow>[0..<nat n].
         if alice_bases t ! i = bob_bases t ! i \<and> alice_bits t ! i \<noteq> bob_results t ! i then 1 else 0)"
    by (simp add: simulate_bb84_def expect_bind expect_return finish_value count_errors_map
        sum_list_filter_if)
  also have "\<dots> = (\<Sum>i\<leftarrow>[0..<nat n]. prob (transmit n True)
      (\<lambda>t. alice_bases t ! i = bob_bases t ! i \<and> alice_bits t ! i \<noteq> bob_results t ! i))"
    by (simp add: expect_sum_list prob_def)
  also have "\<dots> = real (nat n) * (1 / 4)"
  proof (rule sum_list_const_upt)
    fix i assume i: "i < nat n"
    show "prob (transmit n True)
      (\<lambda>t. alice_bases t ! i = bob_bases t ! i \<and> alice_bits t ! i \<noteq> bob_results t ! i) = 1 / 4"
      using prob_transmit_at [OF i, where P = "\<lambda>(a, ba, ev, b, r). ba = b \<and> a \<noteq> r" and e = True]
      by (simp add: position_def prob_def one_qubit_simps)
  qed
  finally show ?thesis by simp
qed

section \<open>Every outcome of a trial\<close>

text \<open>
  All lists of a trial have length \<open>n_bits\<close> in every outcome, so every index of
  \<open>range(n_bits)\<close> used by the notebook is in range.
\<close>

lemma always_return: "P x \<Longrightarrow> always (return_dist x) P"
  by (simp add: always_iff return_dist_def)

lemma always_bind:
  assumes "always d P" and "\<And>x. P x \<Longrightarrow> always (f x) Q"
  shows "always (bind_dist d f) Q"
  using assms by (fastforce simp: always_iff bind_dist_def)

lemma always_True: "always d (\<lambda>x. True)"
  by (simp add: always_iff)

lemma always_for_dist:
  assumes "P s" and "\<And>j s. P s \<Longrightarrow> always (body j s) P"
  shows "always (for_dist js body s) P"
  using assms(1)
proof (induction js arbitrary: s)
  case Nil
  then show ?case by (simp add: always_return)
next
  case (Cons j js)
  show ?case
    unfolding for_dist.simps
    by (rule always_bind [OF assms(2) [OF Cons.prems]]) (rule Cons.IH)
qed

lemma always_for_upt:
  assumes "I m s" and "m \<le> n"
    and "\<And>i s. m \<le> i \<Longrightarrow> i < n \<Longrightarrow> I i s \<Longrightarrow> always (body i s) (I (Suc i))"
  shows "always (for_dist [m..<n] body s) (I n)"
  using assms(2,3)
proof (induction n)
  case 0
  then show ?case using assms(1) by (simp add: always_return)
next
  case (Suc n)
  show ?case
  proof (cases "m = Suc n")
    case True
    then show ?thesis using assms(1) by (simp add: always_return)
  next
    case False
    then have le: "m \<le> n" using Suc.prems(1) by simp
    have IH: "always (for_dist [m..<n] body s) (I n)"
      using le Suc.prems(2) by (intro Suc.IH) simp_all
    have "for_dist [m..<Suc n] body s = bind_dist (for_dist [m..<n] body s) (body n)"
      using le by (simp add: for_dist_append for_dist_single)
    then show ?thesis
      using IH Suc.prems(2) [of n] le by (auto intro: always_bind)
  qed
qed

lemma always_randint_list: "always (randint_list n) (\<lambda>xs. length xs = n \<and> set xs \<subseteq> {0, 1})"
proof (induction n)
  case 0
  show ?case by (simp add: always_return)
next
  case (Suc n)
  have coin: "always randint01 (\<lambda>b. b = 0 \<or> b = 1)"
    by (simp add: always_iff randint01_def)
  show ?case
    unfolding randint_list.simps
    by (rule always_bind [OF coin], rule always_bind [OF Suc], rule always_return) auto
qed

lemma always_bob_measure: "always (bob_measure n cs bb) (\<lambda>rs. length rs = n)"
proof -
  have "always (for_dist [0..<n] (bob_step bb) (cs, [])) (\<lambda>(cs', rs). length rs = n)"
    by (rule always_for_upt [where I = "\<lambda>k (cs', rs). length rs = k" and m = 0])
       (auto simp: bob_step_def Let_def intro!: always_bind [OF always_True] always_return)
  then show ?thesis
    unfolding bob_measure_def
    by (rule always_bind) (auto intro: always_return)
qed

lemma always_intercept: "always (intercept n cs) (\<lambda>(eb, cs'). length eb = n \<and> length cs' = length cs)"
  unfolding intercept_def
  apply (rule always_bind [OF always_randint_list])
  apply (rule always_bind [where P = "\<lambda>cs'. length cs' = length cs"])
   apply (rule always_for_dist)
    apply simp
   apply (simp add: eve_step_eq)
   apply (rule always_bind [OF always_True])
   apply (simp add: always_return)
  apply (simp add: always_return)
  done

lemma always_transmit_lengths:
  "always (transmit n e) (\<lambda>t. length (alice_bits t) = nat n \<and> length (alice_bases t) = nat n \<and>
      length (bob_bases t) = nat n \<and> length (bob_results t) = nat n \<and>
      (case eve_bases t of None \<Rightarrow> \<not> e | Some eb \<Rightarrow> e \<and> length eb = nat n))"
  unfolding transmit_def Let_def
  apply (rule always_bind [OF always_randint_list])
  apply (rule always_bind [OF always_randint_list])
  apply (rule always_bind [where P = "\<lambda>(eo, cs). case eo of None \<Rightarrow> \<not> e | Some eb \<Rightarrow> e \<and> length eb = nat n"])
   apply (cases e)
    apply simp
    apply (rule always_bind [OF always_intercept])
    apply (auto intro: always_return)[1]
   apply (simp add: always_return)
  apply (clarsimp)
  apply (rule always_bind [OF always_randint_list])
  apply (rule always_bind [OF always_bob_measure])
  apply (rule always_return)
  apply simp
  done

lemma transmit_one_outcome:
  "(\<lparr>alice_bits = [1], alice_bases = [0], eve_bases = None, bob_bases = [0], bob_results = [1]\<rparr>, 1 / 8)
     \<in> set (transmit 1 False)"
  by (simp add: transmit_def bind_dist_def return_dist_def randint01_def prepare_all_def
      prepare_def bob_measure_def bob_step_def measure_in_def backend_run_def)

lemma list_all_bind_return:
  "(\<And>x. P (f x)) \<Longrightarrow> list_all (\<lambda>(r, p). P r) (bind_dist d (\<lambda>x. return_dist (f x)))"
  by (auto simp: list_all_iff bind_dist_def return_dist_def)

section \<open>The expected QBER with Eve\<close>

text \<open>
  With Eve, Bob's bit at a position is wrong with probability one half whatever the bases
  of Alice and Bob at all positions are. The QBER is the sum over the matching positions
  of the error indicator divided by the key length, so its expectation is half the
  probability that the sifted key is not empty: \<open>(1 - 2^-n) / 2\<close>.
\<close>

lemma expect_commute:
  "expect d (\<lambda>x. expect e (\<lambda>y. f x y)) = expect e (\<lambda>y. expect d (\<lambda>x. f x y))"
proof (induction d)
  case Nil
  show ?case by (simp add: expect_Nil expect_const)
next
  case (Cons xp d)
  obtain x p where xp: "xp = (x, p)" by (cases xp)
  show ?case
    by (simp add: xp expect_Cons Cons expect_add expect_cmult)
qed

lemma expect_mult_right: "expect d (\<lambda>x. g x * c) = expect d g * c"
  by (induction d) (auto simp: expect_Nil expect_Cons algebra_simps)

lemma filter_upt_empty: "filter P [0..<m] = [] \<longleftrightarrow> (\<forall>j<m. \<not> P j)"
  by (auto simp: filter_empty_conv)

lemma expect_no_match:
  assumes "set abas \<subseteq> {0, 1}"
  shows "expect (randint_list (length abas))
           (\<lambda>bb. if filter (\<lambda>j. abas ! j = bb ! j) [0..<length abas] = [] then 1 else 0)
         = (1 / 2) ^ length abas"
  using assms
proof (induction abas)
  case Nil
  show ?case by (simp add: expect_return)
next
  case (Cons a abas)
  have a: "a = 0 \<or> a = 1" using Cons.prems by simp
  have IH: "expect (randint_list (length abas))
           (\<lambda>bb. if filter (\<lambda>j. abas ! j = bb ! j) [0..<length abas] = [] then 1 else 0)
         = (1 / 2) ^ length abas"
    using Cons.prems by (intro Cons.IH) simp
  have shift: "filter (\<lambda>j. (a # abas) ! j = (b # bb) ! j) [0..<Suc (length abas)] = [] \<longleftrightarrow>
      a \<noteq> b \<and> filter (\<lambda>j. abas ! j = bb ! j) [0..<length abas] = []" for b bb
  proof -
    have "(\<forall>j<Suc (length abas). (a # abas) ! j \<noteq> (b # bb) ! j) \<longleftrightarrow>
        a \<noteq> b \<and> (\<forall>j<length abas. abas ! j \<noteq> bb ! j)"
      by (auto simp: less_Suc_eq_0_disj)
    then show ?thesis by (simp only: filter_upt_empty)
  qed
  have "expect (randint_list (length (a # abas)))
           (\<lambda>bb. if filter (\<lambda>j. (a # abas) ! j = bb ! j) [0..<length (a # abas)] = [] then 1 else 0)
     = expect randint01 (\<lambda>b. expect (randint_list (length abas))
         (\<lambda>bb. if a \<noteq> b \<and> filter (\<lambda>j. abas ! j = bb ! j) [0..<length abas] = [] then 1 else 0))"
    by (simp add: expect_bind expect_return shift del: upt_Suc)
  also have "\<dots> = expect randint01 (\<lambda>b. (if a \<noteq> b then 1 else 0) * (1 / 2) ^ length abas)"
  proof -
    have "expect (randint_list (length abas))
         (\<lambda>bb. if a \<noteq> b \<and> filter (\<lambda>j. abas ! j = bb ! j) [0..<length abas] = [] then 1 else 0)
       = (if a \<noteq> b then 1 else 0) * (1 / 2) ^ length abas" for b
      using IH by (cases "a = b") (simp_all add: expect_const)
    then show ?thesis by simp
  qed
  also have "\<dots> = (1 / 2) ^ length (a # abas)"
    using a by (auto simp: expect_randint01)
  finally show ?case .
qed

lemma expect_transmit_eve:
  "expect (transmit n True) G =
     expect (randint_list (nat n)) (\<lambda>ab. expect (randint_list (nat n)) (\<lambda>abas.
       expect (intercept (nat n) (prepare_all (nat n) ab abas)) (\<lambda>(eb, cs).
         expect (randint_list (nat n)) (\<lambda>bb. expect (bob_measure (nat n) cs bb) (\<lambda>rs.
           G \<lparr>alice_bits = ab, alice_bases = abas, eve_bases = Some eb,
               bob_bases = bb, bob_results = rs\<rparr>)))))"
  by (simp add: transmit_def Let_def expect_bind expect_return case_prod_unfold)

lemma expect_divide: "expect d (\<lambda>x. g x / c) = expect d g / c"
  using expect_mult_right [of d g "1 / c"] by simp

lemma expect_wrong_after_eve:
  assumes "a \<in> {0, 1}" and "b \<in> {0, 1}"
  shows "expect randint01 (\<lambda>ev. expect randint01 (\<lambda>ib.
           expect (backend_run (measure_in (prepare ib ev) b)) (\<lambda>r. if a \<noteq> r then 1 else 0))) = 1 / 2"
  using assms by (auto simp: expect_randint01 expect_measure_prepare)

lemma expect_eve_position_weighted:
  assumes i: "i < nat n"
  shows "expect (transmit n True)
           (\<lambda>t. W (alice_bases t) (bob_bases t) * (if alice_bits t ! i \<noteq> bob_results t ! i then 1 else 0))
       = expect (transmit n True) (\<lambda>t. W (alice_bases t) (bob_bases t)) / 2"
proof -
  let ?n = "nat n"
  define h where "h a c b = expect (backend_run (measure_in c b)) (\<lambda>r. if a \<noteq> r then 1 else (0::real))"
    for a :: int and c and b
  have pos: "expect (intercept ?n (prepare_all ?n ab abas)) (\<lambda>(eb, cs).
         expect (randint_list ?n) (\<lambda>bb. expect (bob_measure ?n cs bb) (\<lambda>rs.
           W abas bb * (if ab ! i \<noteq> rs ! i then 1 else 0))))
       = expect (randint_list ?n) (\<lambda>bb. W abas bb) / 2"
    if ab: "length ab = ?n \<and> set ab \<subseteq> {0, 1}" for ab abas
  proof -
    have a: "ab ! i \<in> {0, 1}" using ab i by (metis nth_mem subsetD)
    have "expect (intercept ?n (prepare_all ?n ab abas)) (\<lambda>(eb, cs).
         expect (randint_list ?n) (\<lambda>bb. expect (bob_measure ?n cs bb) (\<lambda>rs.
           W abas bb * (if ab ! i \<noteq> rs ! i then 1 else 0))))
       = expect (intercept ?n (prepare_all ?n ab abas)) (\<lambda>(eb, cs).
         expect (randint_list ?n) (\<lambda>bb. W abas bb * h (ab ! i) (cs ! i) (bb ! i)))"
    proof (rule expect_surely_cong [OF surely_intercept_length], clarify)
      fix eb :: "int list" and cs :: "circuit list"
      assume "length cs = length (prepare_all ?n ab abas)"
      then have len: "length cs = ?n" by (simp add: prepare_all_def)
      have "expect (bob_measure ?n cs bb) (\<lambda>rs. W abas bb * (if ab ! i \<noteq> rs ! i then 1 else 0))
          = W abas bb * h (ab ! i) (cs ! i) (bb ! i)" for bb
        unfolding expect_cmult h_def
        using expect_bob_measure_at [OF i len, where g = "\<lambda>r. if ab ! i \<noteq> r then 1 else 0"]
        by simp
      then show "expect (randint_list ?n) (\<lambda>bb. expect (bob_measure ?n cs bb) (\<lambda>rs.
           W abas bb * (if ab ! i \<noteq> rs ! i then 1 else 0)))
         = expect (randint_list ?n) (\<lambda>bb. W abas bb * h (ab ! i) (cs ! i) (bb ! i))"
        by simp
    qed
    also have "\<dots> = expect (randint_list ?n) (\<lambda>bb.
         expect (intercept ?n (prepare_all ?n ab abas)) (\<lambda>(eb, cs). W abas bb * h (ab ! i) (cs ! i) (bb ! i)))"
      using expect_commute [of "intercept ?n (prepare_all ?n ab abas)" "randint_list ?n"
          "\<lambda>x bb. W abas bb * h (ab ! i) (snd x ! i) (bb ! i)"]
      by (simp add: case_prod_unfold)
    also have "\<dots> = expect (randint_list ?n) (\<lambda>bb. W abas bb * (1 / 2))"
    proof (rule expect_surely_cong [OF surely_randint_list])
      fix bb :: "int list"
      assume bb: "length bb = ?n \<and> set bb \<subseteq> {0, 1}"
      then have b: "bb ! i \<in> {0, 1}" using i by (metis nth_mem subsetD)
      have "expect (intercept ?n (prepare_all ?n ab abas)) (\<lambda>(eb, cs). h (ab ! i) (cs ! i) (bb ! i))
          = expect randint01 (\<lambda>ev. expect randint01 (\<lambda>ib. h (ab ! i) (prepare ib ev) (bb ! i)))"
        by (rule expect_intercept_at [OF i]) (simp_all add: prepare_all_def)
      also have "\<dots> = 1 / 2"
        unfolding h_def by (rule expect_wrong_after_eve [OF a b])
      finally show "expect (intercept ?n (prepare_all ?n ab abas))
            (\<lambda>(eb, cs). W abas bb * h (ab ! i) (cs ! i) (bb ! i)) = W abas bb * (1 / 2)"
        by (simp add: case_prod_unfold expect_cmult)
    qed
    also have "\<dots> = expect (randint_list ?n) (\<lambda>bb. W abas bb) / 2"
      by (simp add: expect_divide)
    finally show ?thesis .
  qed
  have "expect (transmit n True)
           (\<lambda>t. W (alice_bases t) (bob_bases t) * (if alice_bits t ! i \<noteq> bob_results t ! i then 1 else 0))
      = expect (randint_list ?n) (\<lambda>ab. expect (randint_list ?n) (\<lambda>abas.
          expect (intercept ?n (prepare_all ?n ab abas)) (\<lambda>(eb, cs).
         expect (randint_list ?n) (\<lambda>bb. expect (bob_measure ?n cs bb) (\<lambda>rs.
           W abas bb * (if ab ! i \<noteq> rs ! i then 1 else 0))))))"
    by (simp add: expect_transmit_eve)
  also have "\<dots> = expect (randint_list ?n) (\<lambda>ab. expect (randint_list ?n) (\<lambda>abas.
          expect (randint_list ?n) (\<lambda>bb. W abas bb) / 2))"
    by (rule expect_surely_cong [OF surely_randint_list]) (simp add: pos)
  also have "\<dots> = expect (transmit n True) (\<lambda>t. W (alice_bases t) (bob_bases t)) / 2"
    by (simp add: expect_transmit_eve case_prod_unfold expect_const mass_bob_measure
        mass_intercept expect_divide)
  finally show ?thesis .
qed

lemma sum_list_divide: "(\<Sum>i\<leftarrow>js. f i / c) = (\<Sum>i\<leftarrow>js. f i) / (c::real)"
  by (induction js) (simp_all add: add_divide_distrib)

lemma sum_list_cong_upt: "(\<And>i. i < n \<Longrightarrow> f i = g i) \<Longrightarrow> (\<Sum>i\<leftarrow>[0..<n]. f i) = (\<Sum>i\<leftarrow>[0..<n]. (g i :: real))"
  by (rule arg_cong [where f = sum_list]) simp

lemma prob_no_match_eve:
  "expect (transmit n True)
     (\<lambda>t. if filter (\<lambda>j. alice_bases t ! j = bob_bases t ! j) [0..<nat n] = [] then 1 else 0)
   = (1 / 2) ^ nat n"
proof -
  have "expect (transmit n True)
     (\<lambda>t. if filter (\<lambda>j. alice_bases t ! j = bob_bases t ! j) [0..<nat n] = [] then 1 else 0)
    = expect (randint_list (nat n)) (\<lambda>abas. expect (randint_list (nat n))
        (\<lambda>bb. if filter (\<lambda>j. abas ! j = bb ! j) [0..<nat n] = [] then 1 else 0))"
    by (simp add: expect_transmit_eve case_prod_unfold expect_const mass_bob_measure
        mass_intercept mass_randint_list)
  also have "\<dots> = expect (randint_list (nat n)) (\<lambda>abas. (1 / 2) ^ nat n)"
  proof (rule expect_surely_cong [OF surely_randint_list])
    fix abas :: "int list"
    assume "length abas = nat n \<and> set abas \<subseteq> {0, 1}"
    then show "expect (randint_list (nat n))
        (\<lambda>bb. if filter (\<lambda>j. abas ! j = bb ! j) [0..<nat n] = [] then 1 else 0) = (1 / 2) ^ nat n"
      using expect_no_match [of abas] by simp
  qed
  finally show ?thesis by (simp add: expect_const mass_randint_list)
qed

lemma qber_as_sum:
  "(case finish n t of Inl err \<Rightarrow> 0 | Inr (sa, sb, q) \<Rightarrow> q) =
     (\<Sum>i\<leftarrow>[0..<nat n].
        (if alice_bases t ! i = bob_bases t ! i then 1 else 0)
          / real (length (filter (\<lambda>j. alice_bases t ! j = bob_bases t ! j) [0..<nat n]))
        * (if alice_bits t ! i \<noteq> bob_results t ! i then 1 else 0))"
proof -
  let ?F = "filter (\<lambda>j. alice_bases t ! j = bob_bases t ! j) [0..<nat n]"
  have "(case finish n t of Inl err \<Rightarrow> 0 | Inr (sa, sb, q) \<Rightarrow> q)
      = real_of_int (count_errors (map (\<lambda>i. alice_bits t ! i) ?F) (map (\<lambda>i. bob_results t ! i) ?F))
        / real (length ?F)"
    by (simp add: finish_def sift_eq qber_of_def py_truediv_def)
  also have "\<dots> = (\<Sum>i\<leftarrow>[0..<nat n].
        if alice_bases t ! i = bob_bases t ! i \<and> alice_bits t ! i \<noteq> bob_results t ! i then 1 else 0)
        / real (length ?F)"
    by (simp only: count_errors_map sum_list_filter_if)
  also have "\<dots> = (\<Sum>i\<leftarrow>[0..<nat n].
        (if alice_bases t ! i = bob_bases t ! i \<and> alice_bits t ! i \<noteq> bob_results t ! i then 1 else 0)
        / real (length ?F))"
    by (simp only: sum_list_divide)
  also have "\<dots> = (\<Sum>i\<leftarrow>[0..<nat n].
        (if alice_bases t ! i = bob_bases t ! i then 1 else 0) / real (length ?F)
        * (if alice_bits t ! i \<noteq> bob_results t ! i then 1 else 0))"
    by (rule arg_cong [where f = sum_list]) simp
  finally show ?thesis .
qed

lemma expected_qber_eve:
  "expect (simulate_bb84 n True) (\<lambda>r. case r of Inl err \<Rightarrow> 0 | Inr (sa, sb, q) \<Rightarrow> q)
     = (1 - (1 / 2) ^ nat n) / 2"
proof -
  define W where "W i abas bb =
      (if abas ! i = bb ! i then 1 else 0) / real (length (filter (\<lambda>j. abas ! j = bb ! j) [0..<nat n]))"
    for i :: nat and abas bb :: "int list"
  have total: "(\<Sum>i\<leftarrow>[0..<nat n]. W i abas bb)
      = 1 - (if filter (\<lambda>j. abas ! j = bb ! j) [0..<nat n] = [] then 1 else 0)" for abas bb
    unfolding W_def sum_list_divide length_filter_sum [symmetric] by simp
  have "expect (simulate_bb84 n True) (\<lambda>r. case r of Inl err \<Rightarrow> 0 | Inr (sa, sb, q) \<Rightarrow> q)
      = expect (transmit n True) (\<lambda>t. \<Sum>i\<leftarrow>[0..<nat n].
          W i (alice_bases t) (bob_bases t) * (if alice_bits t ! i \<noteq> bob_results t ! i then 1 else 0))"
    unfolding W_def
    by (simp add: simulate_bb84_def expect_bind expect_return qber_as_sum)
  also have "\<dots> = (\<Sum>i\<leftarrow>[0..<nat n]. expect (transmit n True) (\<lambda>t.
          W i (alice_bases t) (bob_bases t) * (if alice_bits t ! i \<noteq> bob_results t ! i then 1 else 0)))"
    by (rule expect_sum_list)
  also have "\<dots> = (\<Sum>i\<leftarrow>[0..<nat n]. expect (transmit n True) (\<lambda>t. W i (alice_bases t) (bob_bases t)) / 2)"
    by (rule sum_list_cong_upt) (rule expect_eve_position_weighted)
  also have "\<dots> = expect (transmit n True) (\<lambda>t. \<Sum>i\<leftarrow>[0..<nat n]. W i (alice_bases t) (bob_bases t)) / 2"
    by (simp add: sum_list_divide expect_sum_list)
  also have "\<dots> = expect (transmit n True) (\<lambda>t.
        1 - (if filter (\<lambda>j. alice_bases t ! j = bob_bases t ! j) [0..<nat n] = [] then 1 else 0)) / 2"
    by (simp only: total)
  also have "\<dots> = (1 - (1 / 2) ^ nat n) / 2"
    using expect_add [of "transmit n True" "\<lambda>t. 1"
        "\<lambda>t. - (if filter (\<lambda>j. alice_bases t ! j = bob_bases t ! j) [0..<nat n] = [] then 1 else 0)"]
      expect_cmult [of "transmit n True" "-1"
        "\<lambda>t. if filter (\<lambda>j. alice_bases t ! j = bob_bases t ! j) [0..<nat n] = [] then 1 else 0"]
    by (simp add: expect_const mass_transmit prob_no_match_eve)
  finally show ?thesis .
qed

lemma expected_qber_eve_lower:
  assumes "2 \<le> nat n"
  shows "3 / 8 \<le> expect (simulate_bb84 n True) (\<lambda>r. case r of Inl err \<Rightarrow> 0 | Inr (sa, sb, q) \<Rightarrow> q)"
proof -
  have "(1 / 2 :: real) ^ nat n \<le> (1 / 2) ^ 2"
    using assms by (intro power_decreasing) simp_all
  then show ?thesis by (simp add: expected_qber_eve power2_eq_square)
qed

section \<open>The claims of the specification\<close>

text \<open>
  Claim C1 expects a QBER near 0.25 with Eve. On the notebook's code, a trial of 1000
  qubits with \<open>eavesdrop=True\<close> has an expected QBER of \<open>(1 - 2^-1000) / 2\<close>, which is
  above 0.375; its expected sifted key length is 500 and its expected number of errors
  is 250. Half of the sifted positions are wrong, not a quarter.
\<close>

theorem eve_error_rate_is_one_half:
  "expect (simulate_bb84 1000 True)
     (\<lambda>r. case r of Inl err \<Rightarrow> 0 | Inr (sa, sb, q) \<Rightarrow> q) = (1 - (1 / 2) ^ 1000) / 2 \<and>
   3 / 8 \<le> expect (simulate_bb84 1000 True)
     (\<lambda>r. case r of Inl err \<Rightarrow> 0 | Inr (sa, sb, q) \<Rightarrow> q) \<and>
   expect (simulate_bb84 1000 True)
     (\<lambda>r. case r of Inl err \<Rightarrow> 0 | Inr (sa, sb, q) \<Rightarrow> real (length sa)) = 500 \<and>
   expect (simulate_bb84 1000 True)
     (\<lambda>r. case r of Inl err \<Rightarrow> 0 | Inr (sa, sb, q) \<Rightarrow> real_of_int (count_errors sa sb)) = 250"
proof -
  have 1: "expect (simulate_bb84 1000 True)
     (\<lambda>r. case r of Inl err \<Rightarrow> 0 | Inr (sa, sb, q) \<Rightarrow> q) = (1 - (1 / 2) ^ 1000) / 2"
    using expected_qber_eve [of 1000] by (simp only: nat_numeral)
  have 2: "3 / 8 \<le> expect (simulate_bb84 1000 True)
     (\<lambda>r. case r of Inl err \<Rightarrow> 0 | Inr (sa, sb, q) \<Rightarrow> q)"
    by (rule expected_qber_eve_lower) simp
  have 3: "expect (simulate_bb84 1000 True)
     (\<lambda>r. case r of Inl err \<Rightarrow> 0 | Inr (sa, sb, q) \<Rightarrow> real (length sa)) = 500"
    by (simp add: expected_sifted_length)
  have 4: "expect (simulate_bb84 1000 True)
     (\<lambda>r. case r of Inl err \<Rightarrow> 0 | Inr (sa, sb, q) \<Rightarrow> real_of_int (count_errors sa sb)) = 250"
    by (simp add: expected_error_count_eve)
  show ?thesis using 1 2 3 4 by blast
qed

text \<open>
  Claim C2. For every bit and basis in \<open>{0, 1}\<close>, the circuit prepared from the bit and
  the basis, measured in the same basis, gives the bit with probability 1.
\<close>

theorem matched_basis_deterministic:
  assumes "bit_value \<in> {0, 1}" and "basis \<in> {0, 1}"
  shows "prob (backend_run (measure_in (prepare bit_value basis) basis)) (\<lambda>r. r = bit_value) = 1"
  using assms by (auto simp: prob_def measure_same)

theorem matched_basis_deterministic_witness:
  "(1::int) \<in> {0, 1} \<and> (0::int) \<in> {0, 1} \<and>
   prob (backend_run (measure_in (prepare 1 0) 0)) (\<lambda>r. r = 1) = 1"
  using matched_basis_deterministic [of 1 0] by simp

text \<open>
  Claim C3. For every \<open>n_bits\<close>, a trial with \<open>eavesdrop=False\<close> returns, with
  probability 1, a sifted key of Bob equal to the sifted key of Alice and a QBER of
  exactly 0.
\<close>

theorem no_eavesdrop_keys_agree:
  "prob (simulate_bb84 n_bits False)
     (\<lambda>r. case r of Inl e \<Rightarrow> False
         | Inr (sifted_key_alice, sifted_key_bob, qber) \<Rightarrow>
             sifted_key_bob = sifted_key_alice \<and> qber = 0) = 1"
proof -
  have "surely (simulate_bb84 n_bits False)
     (\<lambda>r. case r of Inl e \<Rightarrow> False
         | Inr (sifted_key_alice, sifted_key_bob, qber) \<Rightarrow>
             sifted_key_bob = sifted_key_alice \<and> qber = 0)"
    unfolding simulate_bb84_def
    by (rule surely_bind [OF transmit_no_eve_agree], rule surely_return) (simp add: finish_agree)
  then show ?thesis by (simp add: prob_surely mass_simulate_bb84)
qed

text \<open>
  Claim C4. For every bit and basis in \<open>{0, 1}\<close>, the circuit prepared from them and
  measured in the opposite basis gives the bit with probability exactly 1/2 and the other
  bit with probability exactly 1/2. Two such measurements in Bob's loop are independent:
  each pair of results has probability 1/4.
\<close>

theorem mismatched_basis_uniform:
  assumes "bit_value \<in> {0, 1}" and "basis \<in> {0, 1}"
    and "bit_value' \<in> {0, 1}" and "basis' \<in> {0, 1}" and "x \<in> {0, 1}" and "y \<in> {0, 1}"
  shows "prob (backend_run (measure_in (prepare bit_value basis) (1 - basis))) (\<lambda>r. r = bit_value) = 1 / 2 \<and>
     prob (backend_run (measure_in (prepare bit_value basis) (1 - basis))) (\<lambda>r. r = 1 - bit_value) = 1 / 2 \<and>
     prob (bob_measure 2 [prepare bit_value basis, prepare bit_value' basis'] [1 - basis, 1 - basis'])
       (\<lambda>rs. rs = [x, y]) = 1 / 4"
proof -
  have m: "expect (backend_run (measure_in (prepare b bs) (1 - bs))) g = (g 0 + g 1) / 2"
    if "bs \<in> {0, 1}" for b bs g
    using that by (intro measure_other) auto
  have two: "[0..<2] = [0, 1]" by (simp add: upt_rec)
  have bob: "expect (bob_measure 2 [c0, c1] [b0, b1]) g =
      expect (backend_run (measure_in c0 b0)) (\<lambda>r0.
      expect (backend_run (measure_in c1 b1)) (\<lambda>r1. g [r0, r1]))" for c0 c1 b0 b1 g
    by (simp add: bob_measure_def two bob_step_def Let_def expect_bind expect_return)
  show ?thesis
    using assms by (auto simp: prob_def m bob)
qed

theorem mismatched_basis_uniform_witness:
  "(1::int) \<in> {0, 1} \<and> (0::int) \<in> {0, 1} \<and>
   prob (backend_run (measure_in (prepare 1 0) (1 - 0))) (\<lambda>r. r = 1) = 1 / 2 \<and>
   prob (backend_run (measure_in (prepare 1 0) (1 - 0))) (\<lambda>r. r = 1 - 1) = 1 / 2 \<and>
   prob (bob_measure 2 [prepare 1 0, prepare 0 1] [1 - 0, 1 - 1]) (\<lambda>rs. rs = [0, 1]) = 1 / 4"
  using mismatched_basis_uniform [of 1 0 0 1 0 1] by simp




text \<open>
  Claim C6. For every outcome of steps 1 to 4, the lists have length \<open>n_bits\<close>, the two
  sifted keys have equal length, that length is the number of positions in
  \<open>range(n_bits)\<close> where the bases of Alice and Bob are equal, and the keys hold the bits
  of those positions in index order.
\<close>

theorem sifted_length_invariant:
  assumes "(t, p) \<in> set (transmit n_bits eavesdrop)"
  shows "length (alice_bits t) = nat n_bits \<and> length (alice_bases t) = nat n_bits \<and>
     length (bob_bases t) = nat n_bits \<and> length (bob_results t) = nat n_bits \<and>
     (case sift (nat n_bits) t of (sifted_key_alice, sifted_key_bob) \<Rightarrow>
        length sifted_key_alice = length sifted_key_bob \<and>
        length sifted_key_alice =
          length (filter (\<lambda>i. alice_bases t ! i = bob_bases t ! i) [0..<nat n_bits]) \<and>
        sifted_key_alice =
          map (\<lambda>i. alice_bits t ! i) (filter (\<lambda>i. alice_bases t ! i = bob_bases t ! i) [0..<nat n_bits]) \<and>
        sifted_key_bob =
          map (\<lambda>i. bob_results t ! i) (filter (\<lambda>i. alice_bases t ! i = bob_bases t ! i) [0..<nat n_bits]))"
proof -
  have "length (alice_bits t) = nat n_bits \<and> length (alice_bases t) = nat n_bits \<and>
     length (bob_bases t) = nat n_bits \<and> length (bob_results t) = nat n_bits"
    using always_transmit_lengths [of n_bits eavesdrop] assms by (auto simp: always_iff)
  then show ?thesis by (simp add: sift_eq)
qed

theorem sifted_length_invariant_witness:
  "(\<lparr>alice_bits = [1], alice_bases = [0], eve_bases = None, bob_bases = [0], bob_results = [1]\<rparr>, 1 / 8)
     \<in> set (transmit 1 False) \<and>
   sift (nat 1) \<lparr>alice_bits = [1], alice_bases = [0], eve_bases = None, bob_bases = [0],
     bob_results = [1]\<rparr> = ([1], [1])"
  using sifted_length_invariant [OF transmit_one_outcome] transmit_one_outcome
  by (simp add: sift_def sift_step_def)

text \<open>
  Claim C7. The QBER step never raises: it returns a number in \<open>[0, 1]\<close>, which is 0 for
  an empty sifted key and otherwise the number of positions where the keys differ divided
  by the key length. Every outcome of \<open>simulate_bb84\<close> is a returned result whose QBER is
  that number.
\<close>

theorem qber_in_unit_interval:
  "(\<exists>q. qber_of sifted_key_alice sifted_key_bob = Inr q \<and> 0 \<le> q \<and> q \<le> 1 \<and>
       q = (if length sifted_key_alice = 0 then 0
            else real (length (filter (\<lambda>(a, b). a \<noteq> b) (zip sifted_key_alice sifted_key_bob)))
                 / real (length sifted_key_alice))) \<and>
   list_all (\<lambda>(r, p). case r of Inl e \<Rightarrow> False
       | Inr (key_alice, key_bob, qber) \<Rightarrow> 0 \<le> qber \<and> qber \<le> 1 \<and> qber_of key_alice key_bob = Inr qber)
     (simulate_bb84 n_bits eavesdrop)"
proof -
  have bound: "real (length (filter (\<lambda>(a, b). a \<noteq> b) (zip xs ys))) \<le> real (length xs)"
    for xs ys :: "int list"
  proof -
    have "length (filter (\<lambda>(a, b). a \<noteq> b) (zip xs ys)) \<le> length (zip xs ys)"
      by (rule length_filter_le)
    then show ?thesis by simp
  qed
  have q: "\<exists>q. qber_of xs ys = Inr q \<and> 0 \<le> q \<and> q \<le> 1 \<and>
       q = (if length xs = 0 then 0
            else real (length (filter (\<lambda>(a, b). a \<noteq> b) (zip xs ys))) / real (length xs))" for xs ys
    using bound [of xs ys] by (simp add: qber_of_value divide_le_eq_1)
  have fin: "case finish n_bits t of Inl e \<Rightarrow> False
       | Inr (key_alice, key_bob, qber) \<Rightarrow> 0 \<le> qber \<and> qber \<le> 1 \<and> qber_of key_alice key_bob = Inr qber" for t
  proof -
    obtain sa sb where s: "sift (nat n_bits) t = (sa, sb)" by (cases "sift (nat n_bits) t")
    obtain v where "qber_of sa sb = Inr v" "0 \<le> v" "v \<le> 1" using q [of sa sb] by blast
    then show ?thesis by (simp add: finish_def s)
  qed
  have "list_all (\<lambda>(r, p). case r of Inl e \<Rightarrow> False
       | Inr (key_alice, key_bob, qber) \<Rightarrow> 0 \<le> qber \<and> qber \<le> 1 \<and> qber_of key_alice key_bob = Inr qber)
     (simulate_bb84 n_bits eavesdrop)"
    unfolding simulate_bb84_def by (rule list_all_bind_return) (rule fin)
  then show ?thesis using q by blast
qed

text \<open>
  Claim C8 says that a zero or negative count makes the run fail. The notebook never checks
  \<open>n_bits\<close>: at 0 without Eve, and at -1 with Eve, the single outcome is a returned
  result.
\<close>

theorem zero_count_is_accepted:
  "simulate_bb84 0 False = [(Inr ([], [], 0), 1)] \<and> simulate_bb84 (-1) True = [(Inr ([], [], 0), 1)]"
  by (simp add: simulate_nonpos return_dist_def)

text \<open>
  Claim C8, amended. A zero or negative \<open>n_bits\<close> is not rejected: the probability that
  the run fails is 0, and the probability that it returns a result is 1. The result is
  \<open>([], [], 0.0)\<close>, empty sifted keys and a QBER of 0, in every outcome.
\<close>

theorem nonpositive_count_never_fails:
  "n_bits \<le> 0 \<Longrightarrow>
     prob (simulate_bb84 n_bits eavesdrop) (\<lambda>r. case r of Inl e \<Rightarrow> True | Inr res \<Rightarrow> False) = 0 \<and>
     prob (simulate_bb84 n_bits eavesdrop) (\<lambda>r. case r of Inl e \<Rightarrow> False | Inr res \<Rightarrow> True) = 1 \<and>
     prob (simulate_bb84 n_bits eavesdrop) (\<lambda>r. r = Inr ([], [], 0)) = 1 \<and>
     list_all (\<lambda>(r, p). r = Inr ([], [], 0)) (simulate_bb84 n_bits eavesdrop)"
  by (simp add: simulate_nonpos prob_def expect_return) (simp add: return_dist_def)

theorem nonpositive_count_never_fails_witness:
  "(0::int) \<le> 0 \<and>
     prob (simulate_bb84 0 True) (\<lambda>r. case r of Inl e \<Rightarrow> True | Inr res \<Rightarrow> False) = 0 \<and>
     prob (simulate_bb84 0 True) (\<lambda>r. case r of Inl e \<Rightarrow> False | Inr res \<Rightarrow> True) = 1 \<and>
     prob (simulate_bb84 0 True) (\<lambda>r. r = Inr ([], [], 0)) = 1 \<and>
     list_all (\<lambda>(r, p). r = Inr ([], [], 0)) (simulate_bb84 0 True)"
  using nonpositive_count_never_fails [of 0 True] by simp

text \<open>
  Claim C9. For every \<open>n_bits \<le> 0\<close> and either value of \<open>eavesdrop\<close>, the only outcome
  of \<open>simulate_bb84\<close> is the result \<open>([], [], 0.0)\<close>: no error is raised, and all the
  lists generated on the way are empty.
\<close>

theorem nonpositive_count_returns_empty:
  "n_bits \<le> 0 \<Longrightarrow>
     simulate_bb84 n_bits eavesdrop = return_dist (Inr ([], [], 0)) \<and>
     transmit n_bits eavesdrop = return_dist \<lparr>alice_bits = [], alice_bases = [],
       eve_bases = (if eavesdrop then Some [] else None), bob_bases = [], bob_results = []\<rparr>"
  by (simp add: simulate_nonpos transmit_nonpos)

theorem nonpositive_count_returns_empty_witness:
  "(-2::int) \<le> 0 \<and> simulate_bb84 (-2) True = return_dist (Inr ([], [], 0)) \<and>
   transmit (-2) True = return_dist \<lparr>alice_bits = [], alice_bases = [],
       eve_bases = Some [], bob_bases = [], bob_results = []\<rparr>"
  using nonpositive_count_returns_empty [of "-2" True] by simp

text \<open>
  Claim C10. With \<open>eavesdrop=True\<close>, at every position \<open>i\<close> of a trial the bases of
  Alice and Bob match with probability 1/2, and they match with Bob's bit different from
  Alice's with probability 1/4: a sifted position disagrees with probability exactly 1/2.
  The same holds when Eve's basis equals Alice's (1/8 out of 1/4) and when it differs
  (1/8 out of 1/4).
\<close>

theorem eve_sifted_disagreement_half:
  assumes "i < nat n_bits"
  shows "prob (transmit n_bits True) (\<lambda>t. alice_bases t ! i = bob_bases t ! i) = 1 / 2 \<and>
     prob (transmit n_bits True)
       (\<lambda>t. alice_bases t ! i = bob_bases t ! i \<and> bob_results t ! i \<noteq> alice_bits t ! i) = 1 / 4 \<and>
     prob (transmit n_bits True)
       (\<lambda>t. alice_bases t ! i = bob_bases t ! i \<and>
            map_option (\<lambda>eb. eb ! i) (eve_bases t) = Some (alice_bases t ! i)) = 1 / 4 \<and>
     prob (transmit n_bits True)
       (\<lambda>t. alice_bases t ! i = bob_bases t ! i \<and>
            map_option (\<lambda>eb. eb ! i) (eve_bases t) = Some (alice_bases t ! i) \<and>
            bob_results t ! i \<noteq> alice_bits t ! i) = 1 / 8 \<and>
     prob (transmit n_bits True)
       (\<lambda>t. alice_bases t ! i = bob_bases t ! i \<and>
            map_option (\<lambda>eb. eb ! i) (eve_bases t) = Some (1 - alice_bases t ! i)) = 1 / 4 \<and>
     prob (transmit n_bits True)
       (\<lambda>t. alice_bases t ! i = bob_bases t ! i \<and>
            map_option (\<lambda>eb. eb ! i) (eve_bases t) = Some (1 - alice_bases t ! i) \<and>
            bob_results t ! i \<noteq> alice_bits t ! i) = 1 / 8"
proof -
  have 1: "prob (transmit n_bits True) (\<lambda>t. alice_bases t ! i = bob_bases t ! i) = 1 / 2"
    using prob_transmit_at [OF assms, where P = "\<lambda>(a, ba, ev, b, r). ba = b" and e = True]
    by (simp add: position_def prob_def one_qubit_simps)
  have 2: "prob (transmit n_bits True)
       (\<lambda>t. alice_bases t ! i = bob_bases t ! i \<and> bob_results t ! i \<noteq> alice_bits t ! i) = 1 / 4"
    using prob_transmit_at [OF assms, where P = "\<lambda>(a, ba, ev, b, r). ba = b \<and> r \<noteq> a" and e = True]
    by (simp add: position_def prob_def one_qubit_simps)
  have 3: "prob (transmit n_bits True)
       (\<lambda>t. alice_bases t ! i = bob_bases t ! i \<and>
            map_option (\<lambda>eb. eb ! i) (eve_bases t) = Some (alice_bases t ! i)) = 1 / 4"
    using prob_transmit_at [OF assms, where P = "\<lambda>(a, ba, ev, b, r). ba = b \<and> ev = Some ba" and e = True]
    by (simp add: position_def prob_def one_qubit_simps)
  have 4: "prob (transmit n_bits True)
       (\<lambda>t. alice_bases t ! i = bob_bases t ! i \<and>
            map_option (\<lambda>eb. eb ! i) (eve_bases t) = Some (alice_bases t ! i) \<and>
            bob_results t ! i \<noteq> alice_bits t ! i) = 1 / 8"
    using prob_transmit_at [OF assms, where P = "\<lambda>(a, ba, ev, b, r). ba = b \<and> ev = Some ba \<and> r \<noteq> a" and e = True]
    by (simp add: position_def prob_def one_qubit_simps)
  have 5: "prob (transmit n_bits True)
       (\<lambda>t. alice_bases t ! i = bob_bases t ! i \<and>
            map_option (\<lambda>eb. eb ! i) (eve_bases t) = Some (1 - alice_bases t ! i)) = 1 / 4"
    using prob_transmit_at [OF assms, where P = "\<lambda>(a, ba, ev, b, r). ba = b \<and> ev = Some (1 - ba)" and e = True]
    by (simp add: position_def prob_def one_qubit_simps)
  have 6: "prob (transmit n_bits True)
       (\<lambda>t. alice_bases t ! i = bob_bases t ! i \<and>
            map_option (\<lambda>eb. eb ! i) (eve_bases t) = Some (1 - alice_bases t ! i) \<and>
            bob_results t ! i \<noteq> alice_bits t ! i) = 1 / 8"
    using prob_transmit_at [OF assms, where P = "\<lambda>(a, ba, ev, b, r). ba = b \<and> ev = Some (1 - ba) \<and> r \<noteq> a" and e = True]
    by (simp add: position_def prob_def one_qubit_simps)
  show ?thesis using 1 2 3 4 5 6 by blast
qed

theorem eve_sifted_disagreement_half_witness:
  "(2::nat) < nat 5 \<and>
   prob (transmit 5 True) (\<lambda>t. alice_bases t ! 2 = bob_bases t ! 2) = 1 / 2 \<and>
   prob (transmit 5 True)
     (\<lambda>t. alice_bases t ! 2 = bob_bases t ! 2 \<and> bob_results t ! 2 \<noteq> alice_bits t ! 2) = 1 / 4"
  using eve_sifted_disagreement_half [of 2 5] by simp

end
